theory Spec2Isabelle
  imports Main "HOL-Library.Word"
begin

unbundle bit_operations_syntax

section \<open>Text and regular expressions\<close>

text \<open>
  A JavaScript string is a sequence of 16-bit code units.  Numbers that the code uses as
  indices are modelled as \<open>int\<close> (fractions and infinities are left out); \<open>NaN\<close> is a value of
  its own where the code can produce it.
\<close>

type_synonym cu = "16 word"
type_synonym jsstring = "cu list"

datatype jsnum = NaN | Num int

text \<open>
  The regular expressions of the library are alternations of fixed sequences of character
  classes: a range \<open>[\<dots>-\<dots>]\<close>, a literal code unit, or \<open>[^]\<close> (any code unit).  They are built
  without the \<open>u\<close> flag, so they match code unit by code unit.
\<close>

datatype cclass = Range cu cu | Lit cu | AnyCU

datatype pattern = Unit cclass | Then cclass pattern

type_synonym regex = "pattern list"

fun inClass :: "cclass \<Rightarrow> cu \<Rightarrow> bool" where
  "inClass (Range lo hi) x = (lo \<le> x \<and> x \<le> hi)"
| "inClass (Lit c) x = (x = c)"
| "inClass AnyCU x = True"

text \<open>Length of the match of a sequence at the head of a text, if it matches there.\<close>

fun matchPat :: "pattern \<Rightarrow> jsstring \<Rightarrow> nat option" where
  "matchPat (Unit c) [] = None"
| "matchPat (Unit c) (x # xs) = (if inClass c x then Some 1 else None)"
| "matchPat (Then c p) [] = None"
| "matchPat (Then c p) (x # xs) =
     (if inClass c x then map_option Suc (matchPat p xs) else None)"

text \<open>Alternatives are tried in order; the first that matches wins.\<close>

fun matchAlts :: "regex \<Rightarrow> jsstring \<Rightarrow> nat option" where
  "matchAlts [] xs = None"
| "matchAlts (p # ps) xs =
     (case matchPat p xs of Some n \<Rightarrow> Some n | None \<Rightarrow> matchAlts ps xs)"

text \<open>
  The leftmost match in the text whose remaining part is \<open>xs\<close>, starting at offset \<open>pos\<close>:
  its index and its length.
\<close>

fun findMatch :: "regex \<Rightarrow> jsstring \<Rightarrow> nat \<Rightarrow> (nat \<times> nat) option" where
  "findMatch re [] pos = None"
| "findMatch re (x # xs) pos =
     (case matchAlts re (x # xs) of
        Some n \<Rightarrow> Some (pos, n)
      | None \<Rightarrow> findMatch re xs (pos + 1))"

text \<open>
  \<open>RegExp.prototype.exec\<close> of a regular expression with the \<open>g\<close> flag.  The state of the
  regular expression object is its \<open>lastIndex\<close>; the result is the match (index and length)
  and the new \<open>lastIndex\<close>, which is reset to 0 when nothing matches.
\<close>

definition exec :: "regex \<Rightarrow> jsstring \<Rightarrow> nat \<Rightarrow> (nat \<times> nat) option \<times> nat" where
  "exec re str lastIndex =
     (if lastIndex > length str then (None, 0)
      else (case findMatch re (drop lastIndex str) lastIndex of
              Some (idx, n) \<Rightarrow> (Some (idx, n), idx + n)
            | None \<Rightarrow> (None, 0)))"

text \<open>\<open>RegExp.prototype.test\<close> on a fresh regular expression object.\<close>

definition test :: "regex \<Rightarrow> jsstring \<Rightarrow> bool" where
  "test re str = (fst (exec re str 0) \<noteq> None)"

section \<open>The scanners of the two classes\<close>

definition surrogatePairs :: pattern where
  "surrogatePairs = Then (Range 0xD800 0xDBFF) (Unit (Range 0xDC00 0xDFFF))"

definition regionalIndicatorPairs :: pattern where
  "regionalIndicatorPairs =
     Then (Lit 0xD83C) (Then (Range 0xDDE6 0xDDFF)
       (Then (Lit 0xD83C) (Unit (Range 0xDDE6 0xDDFF))))"

definition createSurrogatePairScanner :: regex where
  "createSurrogatePairScanner = [surrogatePairs]"

definition createUtfSafeCharScannerHandlingSurrogatePairs :: regex where
  "createUtfSafeCharScannerHandlingSurrogatePairs = [surrogatePairs, Unit AnyCU]"

definition createRegionalIndicatorAndSurrogatePairScanner :: regex where
  "createRegionalIndicatorAndSurrogatePairScanner = [regionalIndicatorPairs, surrogatePairs]"

definition createUtfSafeCharScannerHandingRegionalIndicatorPairsAndSurrogatePairs :: regex where
  "createUtfSafeCharScannerHandingRegionalIndicatorPairsAndSurrogatePairs =
     [regionalIndicatorPairs, surrogatePairs, Unit AnyCU]"

text \<open>
  The static methods are looked up on the class they are called on (\<open>this\<close>), so every
  operation takes the class as a parameter.  \<open>UtfVisualString\<close> overrides the two factory
  methods below and nothing else.
\<close>

datatype variant = UtfString | UtfVisualString

fun createUnsafeUtfCharFinder :: "variant \<Rightarrow> regex" where
  "createUnsafeUtfCharFinder UtfString = createSurrogatePairScanner"
| "createUnsafeUtfCharFinder UtfVisualString = createRegionalIndicatorAndSurrogatePairScanner"

fun createUtfSafeCharScanner :: "variant \<Rightarrow> regex" where
  "createUtfSafeCharScanner UtfString = createUtfSafeCharScannerHandlingSurrogatePairs"
| "createUtfSafeCharScanner UtfVisualString =
     createUtfSafeCharScannerHandingRegionalIndicatorPairsAndSurrogatePairs"

definition containsUnsafeUtfChars :: "variant \<Rightarrow> jsstring \<Rightarrow> bool" where
  "containsUnsafeUtfChars v str = test (createUnsafeUtfCharFinder v) str"

section \<open>Index mapping\<close>

text \<open>
  The inner loop of \<open>scan\<close>: it walks single code units up to the next match and then
  takes the match (or, when there is no match, one more unit) as one character.
\<close>

function scan_inner ::
  "(nat \<times> nat) option \<Rightarrow> nat \<Rightarrow> int \<Rightarrow> nat \<Rightarrow> nat \<Rightarrow> nat \<times> nat" where
  "scan_inner match nextIdx charIndex byteIndex curCharIndex =
     (if int curCharIndex < charIndex then
        (if byteIndex = nextIdx then
           (if int curCharIndex < charIndex then
              (case match of
                 Some (idx, n) \<Rightarrow> (byteIndex + n, curCharIndex + 1)
               | None \<Rightarrow> (byteIndex + 1, curCharIndex + 1))
            else (byteIndex, curCharIndex))
         else scan_inner match nextIdx charIndex (byteIndex + 1) (curCharIndex + 1))
      else (byteIndex, curCharIndex))"
  by pat_completeness auto
termination
  by (relation "measure (\<lambda>(m, nx, ci, b, c). nat (ci - int c))") auto

declare scan_inner.simps [simp del]

lemma matchPat_bounds: "matchPat p xs = Some n \<Longrightarrow> 1 \<le> n \<and> n \<le> length xs"
  by (induction p xs arbitrary: n rule: matchPat.induct) (auto split: if_splits)

lemma matchAlts_bounds: "matchAlts re xs = Some n \<Longrightarrow> 1 \<le> n \<and> n \<le> length xs"
  by (induction re) (auto split: option.splits dest: matchPat_bounds)

lemma findMatch_bounds:
  "findMatch re xs pos = Some (idx, n) \<Longrightarrow> pos \<le> idx \<and> 1 \<le> n \<and> idx + n \<le> pos + length xs"
proof (induction xs arbitrary: pos)
  case Nil
  then show ?case by simp
next
  case (Cons x xs)
  show ?case
  proof (cases "matchAlts re (x # xs)")
    case None
    with Cons.prems have "findMatch re xs (pos + 1) = Some (idx, n)" by simp
    from Cons.IH [OF this] show ?thesis by simp
  next
    case (Some m)
    with Cons.prems have "idx = pos" "n = m" by simp_all
    with matchAlts_bounds [OF Some] show ?thesis by simp
  qed
qed

lemma exec_advances:
  assumes "exec re str li = (Some m, li')"
  shows "li < li' \<and> li' \<le> length str"
proof -
  from assms have le: "li \<le> length str"
    by (auto simp: exec_def split: if_splits)
  from assms obtain idx n where fm: "findMatch re (drop li str) li = Some (idx, n)"
    and li': "li' = idx + n"
    by (auto simp: exec_def split: if_splits option.splits)
  from findMatch_bounds [OF fm] le li' show ?thesis by simp
qed

text \<open>The outer loop of \<open>scan\<close>; \<open>lastIndex\<close> is the state of the scanner.\<close>

function scan_loop :: "regex \<Rightarrow> jsstring \<Rightarrow> int \<Rightarrow> nat \<Rightarrow> nat \<Rightarrow> nat \<Rightarrow> int" where
  "scan_loop scanner str charIndex lastIndex byteIndex curCharIndex =
     (case exec scanner str lastIndex of (match, lastIndex') \<Rightarrow>
        (case scan_inner match
                (case match of Some (idx, n) \<Rightarrow> idx | None \<Rightarrow> length str)
                charIndex byteIndex curCharIndex of
           (byteIndex', curCharIndex') \<Rightarrow>
             if int curCharIndex' = charIndex then int byteIndex'
             else if byteIndex' \<ge> length str \<or> match = None then -1
             else scan_loop scanner str charIndex lastIndex' byteIndex' curCharIndex'))"
  by pat_completeness auto
termination
proof (relation "measure (\<lambda>(re, str, ci, li, b, c). length str + 1 - li)", goal_cases)
  case 1
  then show ?case by simp
next
  case (2 scanner str charIndex lastIndex byteIndex curCharIndex match lastIndex' b' c')
  from 2(4) obtain m where "match = Some m" by auto
  with 2(1) have "exec scanner str lastIndex = (Some m, lastIndex')" by simp
  from exec_advances [OF this] show ?case by auto
qed

declare scan_loop.simps [simp del]

definition scan :: "variant \<Rightarrow> jsstring \<Rightarrow> regex \<Rightarrow> int \<Rightarrow> int" where
  "scan v str scanner charIndex =
     (if \<not> containsUnsafeUtfChars v str then charIndex
      else scan_loop scanner str charIndex 0 0 0)"


function findCharIndex_loop :: "regex \<Rightarrow> jsstring \<Rightarrow> int \<Rightarrow> nat \<Rightarrow> int \<Rightarrow> int" where
  "findCharIndex_loop scanner str byteIndex lastIndex charCount =
     (case exec scanner str lastIndex of
        (None, lastIndex') \<Rightarrow> charCount
      | (Some m, lastIndex') \<Rightarrow>
          if int lastIndex' > byteIndex then charCount
          else findCharIndex_loop scanner str byteIndex lastIndex' (charCount + 1))"
  by pat_completeness auto
termination
proof (relation "measure (\<lambda>(re, str, bi, li, c). length str + 1 - li)", goal_cases)
  case 1
  then show ?case by simp
next
  case (2 scanner str byteIndex lastIndex charCount match lastIndex' m)
  then have "exec scanner str lastIndex = (Some m, lastIndex')" by simp
  from exec_advances [OF this] show ?case by auto
qed

declare findCharIndex_loop.simps [simp del]

definition findCharIndex :: "variant \<Rightarrow> jsstring \<Rightarrow> int \<Rightarrow> int" where
  "findCharIndex v str byteIndex =
     (if byteIndex \<ge> int (length str) then -1
      else if \<not> containsUnsafeUtfChars v str then byteIndex
      else findCharIndex_loop (createUtfSafeCharScanner v) str byteIndex 0 0)"

definition lengthOf :: "variant \<Rightarrow> jsstring \<Rightarrow> int" where
  "lengthOf v str = findCharIndex v str (int (length str) - 1) + 1"

definition findByteIndex :: "variant \<Rightarrow> jsstring \<Rightarrow> int \<Rightarrow> int" where
  "findByteIndex v str charIndex =
     (if charIndex \<ge> lengthOf v str then -1
      else scan v str (createUtfSafeCharScanner v) charIndex)"

definition findSurrogateByteIndex :: "variant \<Rightarrow> jsstring \<Rightarrow> int \<Rightarrow> int" where
  "findSurrogateByteIndex v str charIndex = scan v str createSurrogatePairScanner charIndex"

section \<open>Native string primitives\<close>

text \<open>\<open>String.prototype.slice\<close> with two integer arguments.\<close>

definition nativeSlice :: "jsstring \<Rightarrow> int \<Rightarrow> int \<Rightarrow> jsstring" where
  "nativeSlice str a b =
     (let len = int (length str);
          from = (if a < 0 then max (len + a) 0 else min a len);
          to = (if b < 0 then max (len + b) 0 else min b len)
      in take (nat (to - from)) (drop (nat from) str))"

text \<open>\<open>String.prototype.charCodeAt\<close>: \<open>NaN\<close> outside the string.\<close>

definition nativeCharCodeAt :: "jsstring \<Rightarrow> int \<Rightarrow> jsnum" where
  "nativeCharCodeAt str i =
     (if 0 \<le> i \<and> i < int (length str) then Num (uint (str ! nat i)) else NaN)"

text \<open>
  \<open>String.prototype.indexOf(searchValue, position)\<close>: the least offset at or after the
  (clamped) position where the search value occurs, or -1.
\<close>

fun nativeIndexOf_from :: "jsstring \<Rightarrow> jsstring \<Rightarrow> nat \<Rightarrow> int" where
  "nativeIndexOf_from [] searchValue k = (if searchValue = [] then int k else -1)"
| "nativeIndexOf_from (x # xs) searchValue k =
     (if take (length searchValue) (x # xs) = searchValue then int k
      else nativeIndexOf_from xs searchValue (k + 1))"

definition nativeIndexOf :: "jsstring \<Rightarrow> jsstring \<Rightarrow> int \<Rightarrow> int" where
  "nativeIndexOf str searchValue position =
     (let k = nat (min (max position 0) (int (length str)))
      in nativeIndexOf_from (drop k str) searchValue k)"

text \<open>The 32-bit and 16-bit conversions of the bitwise operators and of \<open>String.fromCharCode\<close>.\<close>

definition toInt32 :: "int \<Rightarrow> int" where
  "toInt32 x = sint (word_of_int x :: 32 word)"

definition fromCharCode :: "int \<Rightarrow> cu" where
  "fromCharCode x = word_of_int x"

section \<open>Characters and code points\<close>

text \<open>
  In \<open>charAt\<close> the window \<open>characters\<close> is never empty when it is scanned, because
  \<open>0 \<le> byteIndex < str.length\<close> there; \<open>characters[0]\<close> is then its first code unit.
\<close>

definition charAt :: "variant \<Rightarrow> jsstring \<Rightarrow> int \<Rightarrow> jsstring" where
  "charAt v str index =
     (let byteIndex = findByteIndex v str index in
      if byteIndex < 0 then []
      else let characters = nativeSlice str byteIndex (byteIndex + 8) in
        (case fst (exec (createUtfSafeCharScanner v) characters 0) of
           None \<Rightarrow> take 1 characters
         | Some (idx, n) \<Rightarrow> take n (drop idx characters)))"

definition charCodeAt :: "variant \<Rightarrow> jsstring \<Rightarrow> int \<Rightarrow> jsnum" where
  "charCodeAt v str index =
     (let byteIndex = findSurrogateByteIndex v str index in
      if byteIndex < 0 then NaN
      else (case nativeCharCodeAt str byteIndex of
              NaN \<Rightarrow> NaN
            | Num code \<Rightarrow>
                if 0xd800 \<le> code \<and> code \<le> 0xdbff then
                  (case nativeCharCodeAt str (byteIndex + 1) of
                     NaN \<Rightarrow> NaN
                   | Num low \<Rightarrow> Num ((code - 0xd800) * 0x400 + (low - 0xdc00) + 0x10000))
                else Num code))"

text \<open>The instance method \<open>codePointAt\<close> calls the static \<open>charCodeAt\<close> of its class.\<close>

definition codePointAt :: "variant \<Rightarrow> jsstring \<Rightarrow> int \<Rightarrow> jsnum" where
  "codePointAt v str index = charCodeAt v str index"

definition stringFromCharCode :: "int \<Rightarrow> jsstring" where
  "stringFromCharCode charCode =
     (if charCode > 0xffff then
        (let charCode' = charCode - 0x10000 in
         [fromCharCode (0xd800 + drop_bit 10 (toInt32 charCode')),
          fromCharCode (0xdc00 + (toInt32 charCode' AND 0x3ff))])
      else [fromCharCode charCode])"

definition codePointsToString :: "int list \<Rightarrow> jsstring" where
  "codePointsToString arr = concat (map stringFromCharCode arr)"

text \<open>The loop of \<open>stringToCodePoints\<close> stops at the first falsy code point: \<open>NaN\<close> or 0.\<close>

function stringToCodePoints_loop :: "variant \<Rightarrow> jsstring \<Rightarrow> nat \<Rightarrow> int list \<Rightarrow> int list" where
  "stringToCodePoints_loop v str i result =
     (if i < length str then
        (case charCodeAt v str (int i) of
           NaN \<Rightarrow> result
         | Num codePoint \<Rightarrow>
             if codePoint = 0 then result
             else stringToCodePoints_loop v str (i + 1) (result @ [codePoint]))
      else result)"
  by pat_completeness auto
termination
  by (relation "measure (\<lambda>(v, str, i, r). length str - i)") auto

declare stringToCodePoints_loop.simps [simp del]

definition stringToCodePoints :: "variant \<Rightarrow> jsstring \<Rightarrow> int list" where
  "stringToCodePoints v str = stringToCodePoints_loop v str 0 []"

function stringToCharArray_loop :: "regex \<Rightarrow> jsstring \<Rightarrow> nat \<Rightarrow> jsstring list \<Rightarrow> jsstring list" where
  "stringToCharArray_loop scanner str lastIndex result =
     (case exec scanner str lastIndex of
        (None, lastIndex') \<Rightarrow> result
      | (Some (idx, n), lastIndex') \<Rightarrow>
          stringToCharArray_loop scanner str lastIndex' (result @ [take n (drop idx str)]))"
  by pat_completeness auto
termination
proof (relation "measure (\<lambda>(re, str, li, r). length str + 1 - li)", goal_cases)
  case 1
  then show ?case by simp
next
  case (2 scanner str lastIndex result match lastIndex' m idx n)
  then have "exec scanner str lastIndex = (Some m, lastIndex')" by simp
  from exec_advances [OF this] show ?case by auto
qed

declare stringToCharArray_loop.simps [simp del]

definition stringToCharArray :: "variant \<Rightarrow> jsstring \<Rightarrow> jsstring list" where
  "stringToCharArray v str = stringToCharArray_loop (createUtfSafeCharScanner v) str 0 []"


section \<open>Bytes\<close>

text \<open>
  \<open>bytesToString\<close> reads the array two entries at a time; past the end of an array of odd
  length \<open>arr[i + 1]\<close> is \<open>undefined\<close>, which the operator \<open>|\<close> takes as 0.
\<close>

fun bytesToString :: "int list \<Rightarrow> jsstring" where
  "bytesToString [] = []"
| "bytesToString [hi] = [fromCharCode (toInt32 (push_bit 8 (toInt32 hi)) OR 0)]"
| "bytesToString (hi # low # arr) =
     fromCharCode (toInt32 (push_bit 8 (toInt32 hi)) OR toInt32 low) # bytesToString arr"

lemma toInt32_le_self: "0 \<le> x \<Longrightarrow> toInt32 x \<le> x"
  by (simp add: toInt32_def sint_sbintrunc' signed_take_bit_int_less_eq_self_iff)

text \<open>
  The inner loop of \<open>stringToBytes\<close> collects the bytes of one code unit, lowest first; the
  outer loop goes through the code units of the string from first to last.
\<close>

function stringToBytes_inner :: "int \<Rightarrow> int list \<Rightarrow> int list" where
  "stringToBytes_inner chr byteArray =
     (if chr > 0 then
        stringToBytes_inner (drop_bit 8 (toInt32 chr)) (byteArray @ [toInt32 chr AND 0xff])
      else byteArray)"
  by pat_completeness auto
termination
proof (relation "measure (\<lambda>(chr, b). nat chr)", goal_cases)
  case 1
  then show ?case by simp
next
  case (2 chr byteArray)
  then have "toInt32 chr \<le> chr" by (simp add: toInt32_le_self)
  moreover have "toInt32 chr div 256 < chr"
    using 2 calculation
    by (cases "toInt32 chr \<le> 0")
       (auto intro: order.strict_trans1 [OF zdiv_mono1 [of _ 0 256, simplified]])
  ultimately show ?case using 2 by (simp add: drop_bit_eq_div)
qed

declare stringToBytes_inner.simps [simp del]

fun stringToBytes :: "jsstring \<Rightarrow> int list" where
  "stringToBytes [] = []"
| "stringToBytes (c # str) =
     (let byteArray = stringToBytes_inner (uint c) [];
          byteArray' = (if length byteArray = 1 then byteArray @ [0] else byteArray)
      in rev byteArray' @ stringToBytes str)"


section \<open>Search, padding and slicing\<close>

text \<open>
  An optional numeric argument: \<open>None\<close> is \<open>undefined\<close>.  \<open>isNumber\<close> holds of a number other
  than \<open>NaN\<close>, and \<open>valueOf\<close> reads the number of such an argument.
\<close>

definition isDefined :: "'a option \<Rightarrow> bool" where
  "isDefined x = (x \<noteq> None)"

definition isNumber :: "jsnum option \<Rightarrow> bool" where
  "isNumber x = (isDefined x \<and> x \<noteq> Some NaN)"

fun valueOf :: "jsnum option \<Rightarrow> int" where
  "valueOf (Some (Num n)) = n"
| "valueOf a = 0"

definition indexOf :: "variant \<Rightarrow> jsstring \<Rightarrow> jsstring \<Rightarrow> int option \<Rightarrow> int" where
  "indexOf v str searchValue start =
     (let start' = (case start of None \<Rightarrow> 0 | Some s \<Rightarrow> s);
          startByteIndex = findByteIndex v str start'
      in if startByteIndex < 0 then -1
         else let index = nativeIndexOf str searchValue startByteIndex
              in if index < 0 then -1 else findCharIndex v str index)"

text \<open>
  The \<open>do \<dots> while\<close> loops of \<open>padEnd\<close> and \<open>padStart\<close>.  Nothing bounds the number of
  their iterations, so a run that never leaves the loop has the value \<open>None\<close>.
\<close>

partial_function (option) padEnd_loop ::
  "variant \<Rightarrow> jsstring \<Rightarrow> int \<Rightarrow> jsstring \<Rightarrow> int \<Rightarrow> jsstring option" where
  "padEnd_loop v padString targetLength newStr iPadStr =
     (if lengthOf v (newStr @ charAt v padString iPadStr) < targetLength
      then padEnd_loop v padString targetLength (newStr @ charAt v padString iPadStr)
             (if iPadStr + 1 \<ge> lengthOf v padString then 0 else iPadStr + 1)
      else Some (newStr @ charAt v padString iPadStr))"

declare padEnd_loop.simps [code]

definition padEnd :: "variant \<Rightarrow> jsstring \<Rightarrow> int \<Rightarrow> jsstring option \<Rightarrow> jsstring option" where
  "padEnd v str targetLength padString =
     (let padString' = (case padString of None \<Rightarrow> [0x20] | Some p \<Rightarrow> p)
      in if targetLength \<le> lengthOf v str then Some str
         else padEnd_loop v padString' targetLength str 0)"

partial_function (option) padStart_loop ::
  "variant \<Rightarrow> jsstring \<Rightarrow> jsstring \<Rightarrow> int \<Rightarrow> jsstring \<Rightarrow> int \<Rightarrow> jsstring option" where
  "padStart_loop v str padString targetLength fullPadding iPadStr =
     (if lengthOf v ((fullPadding @ charAt v padString iPadStr) @ str) < targetLength
      then padStart_loop v str padString targetLength (fullPadding @ charAt v padString iPadStr)
             (if iPadStr + 1 \<ge> lengthOf v padString then 0 else iPadStr + 1)
      else Some ((fullPadding @ charAt v padString iPadStr) @ str))"

declare padStart_loop.simps [code]

definition padStart :: "variant \<Rightarrow> jsstring \<Rightarrow> int \<Rightarrow> jsstring option \<Rightarrow> jsstring option" where
  "padStart v str targetLength padString =
     (let padString' = (case padString of None \<Rightarrow> [0x20] | Some p \<Rightarrow> p)
      in if targetLength \<le> lengthOf v str then Some str
         else padStart_loop v str padString' targetLength [] 0)"

definition slice :: "variant \<Rightarrow> jsstring \<Rightarrow> jsnum option \<Rightarrow> jsnum option \<Rightarrow> jsstring" where
  "slice v str start finish =
     (let start' = (if \<not> isNumber start then 0
                    else if valueOf start < 0 then lengthOf v str + valueOf start
                    else valueOf start);
          finish' = (if \<not> isNumber finish \<or> valueOf finish \<ge> lengthOf v str
                     then int (length str)
                     else if valueOf finish < 0 then lengthOf v str + valueOf finish
                     else valueOf finish);
          startByteIndex = findByteIndex v str start';
          startByteIndex' = (if startByteIndex < 0 then int (length str) else startByteIndex);
          finishByteIndex = findByteIndex v str finish';
          finishByteIndex' = (if finishByteIndex < 0 then int (length str) else finishByteIndex)
      in nativeSlice str startByteIndex' finishByteIndex')"

section \<open>Logical characters\<close>

text \<open>
  The logical characters of a text are the successive matches of the UTF-safe scanner of the
  class; \<open>spanAt\<close> is the length of the match at the head of a text and \<open>chars\<close> the list of
  all matches.  \<open>stringToCharArray\<close> computes this list, and the index mapping is
  characterised through it.
\<close>

lemma safe_matches: "matchAlts (createUtfSafeCharScanner v) (x # xs) \<noteq> None"
  by (cases v)
     (simp_all add: createUtfSafeCharScannerHandlingSurrogatePairs_def
        createUtfSafeCharScannerHandingRegionalIndicatorPairsAndSurrogatePairs_def
        split: option.splits)

definition spanAt :: "variant \<Rightarrow> jsstring \<Rightarrow> nat" where
  "spanAt v xs = (case matchAlts (createUtfSafeCharScanner v) xs of Some n \<Rightarrow> n | None \<Rightarrow> 0)"

lemma spanAt_bounds: "xs \<noteq> [] \<Longrightarrow> 1 \<le> spanAt v xs \<and> spanAt v xs \<le> length xs"
proof -
  assume "xs \<noteq> []"
  then obtain y ys where xs: "xs = y # ys" by (cases xs) auto
  with safe_matches [of v y ys] obtain n where n: "matchAlts (createUtfSafeCharScanner v) xs = Some n"
    by auto
  from matchAlts_bounds [OF n] n show ?thesis by (simp add: spanAt_def)
qed

function chars :: "variant \<Rightarrow> jsstring \<Rightarrow> jsstring list" where
  "chars v [] = []"
| "chars v (x # xs) =
     take (spanAt v (x # xs)) (x # xs) # chars v (drop (spanAt v (x # xs)) (x # xs))"
  by pat_completeness auto
termination
proof (relation "measure (\<lambda>(v, xs). length xs)", goal_cases)
  case 1
  then show ?case by simp
next
  case (2 v x xs)
  from spanAt_bounds [of "x # xs" v] show ?case by auto
qed

declare chars.simps(2) [simp del]

lemma chars_unfold:
  "xs \<noteq> [] \<Longrightarrow> chars v xs = take (spanAt v xs) xs # chars v (drop (spanAt v xs) xs)"
  by (cases xs) (simp_all add: chars.simps(2))

lemma concat_chars: "concat (chars v xs) = xs"
proof (induction v xs rule: chars.induct)
  case (1 v)
  then show ?case by simp
next
  case (2 v x xs)
  then show ?case by (simp add: chars.simps(2) del: take_Suc_Cons drop_Suc_Cons)
qed

lemma chars_nonempty: "c \<in> set (chars v xs) \<Longrightarrow> c \<noteq> []"
proof (induction v xs rule: chars.induct)
  case (1 v)
  then show ?case by simp
next
  case (2 v x xs)
  from spanAt_bounds [of "x # xs" v] have "take (spanAt v (x # xs)) (x # xs) \<noteq> []"
    by (cases "spanAt v (x # xs)") auto
  with 2 show ?case by (auto simp: chars.simps(2))
qed

lemma exec_safe:
  assumes "li < length str"
  shows "exec (createUtfSafeCharScanner v) str li =
           (Some (li, spanAt v (drop li str)), li + spanAt v (drop li str))"
proof -
  from assms obtain y ys where d: "drop li str = y # ys"
    by (cases "drop li str") auto
  with safe_matches [of v y ys] obtain n where
    n: "matchAlts (createUtfSafeCharScanner v) (y # ys) = Some n" by auto
  then have "spanAt v (drop li str) = n" by (simp add: spanAt_def d)
  with assms d n show ?thesis by (simp add: exec_def)
qed

lemma exec_end: "length str \<le> li \<Longrightarrow> exec re str li = (None, 0)"
  by (simp add: exec_def)

lemma span_step:
  assumes "li < length str"
  shows "1 \<le> spanAt v (drop li str)" "li + spanAt v (drop li str) \<le> length str"
proof -
  from assms have "drop li str \<noteq> []" by simp
  from spanAt_bounds [OF this, of v] assms
  show "1 \<le> spanAt v (drop li str)" "li + spanAt v (drop li str) \<le> length str" by auto
qed

lemma stringToCharArray_loop_chars:
  "li \<le> length str \<Longrightarrow>
   stringToCharArray_loop (createUtfSafeCharScanner v) str li acc = acc @ chars v (drop li str)"
proof (induction "length str - li" arbitrary: li acc rule: less_induct)
  case less
  show ?case
  proof (cases "li = length str")
    case True
    then show ?thesis
      by (subst stringToCharArray_loop.simps) (simp add: exec_end)
  next
    case False
    with less.prems have lt: "li < length str" by simp
    define n where "n = spanAt v (drop li str)"
    from lt have ne: "drop li str \<noteq> []" by simp
    from span_step [OF lt, of v] have nb: "1 \<le> n" "li + n \<le> length str"
      by (simp_all add: n_def)
    have "stringToCharArray_loop (createUtfSafeCharScanner v) str li acc =
          stringToCharArray_loop (createUtfSafeCharScanner v) str (li + n) (acc @ [take n (drop li str)])"
      by (subst stringToCharArray_loop.simps) (simp add: exec_safe [OF lt] n_def)
    also have "\<dots> = (acc @ [take n (drop li str)]) @ chars v (drop (li + n) str)"
      using nb lt by (intro less.hyps) simp_all
    also have "\<dots> = acc @ chars v (drop li str)"
      by (simp add: chars_unfold [OF ne] n_def add.commute)
    finally show ?thesis .
  qed
qed

lemma stringToCharArray_chars: "stringToCharArray v str = chars v str"
  by (simp add: stringToCharArray_def stringToCharArray_loop_chars)

fun countEnds :: "jsstring list \<Rightarrow> int \<Rightarrow> int" where
  "countEnds [] m = 0"
| "countEnds (c # cs) m =
     (if int (length c) > m then 0 else 1 + countEnds cs (m - int (length c)))"

lemma findCharIndex_loop_chars:
  "li \<le> length str \<Longrightarrow>
   findCharIndex_loop (createUtfSafeCharScanner v) str byteIndex li charCount =
     charCount + countEnds (chars v (drop li str)) (byteIndex - int li)"
proof (induction "length str - li" arbitrary: li charCount rule: less_induct)
  case less
  show ?case
  proof (cases "li = length str")
    case True
    then show ?thesis
      by (subst findCharIndex_loop.simps) (simp add: exec_end)
  next
    case False
    with less.prems have lt: "li < length str" by simp
    define n where "n = spanAt v (drop li str)"
    from lt have ne: "drop li str \<noteq> []" by simp
    from span_step [OF lt, of v] have nb: "1 \<le> n" "li + n \<le> length str"
      by (simp_all add: n_def)
    have len: "min (length str - li) n = n" using nb by simp
    show ?thesis
    proof (cases "int (li + n) > byteIndex")
      case True
      then show ?thesis
        by (subst findCharIndex_loop.simps)
           (simp add: exec_safe [OF lt] chars_unfold [OF ne] n_def [symmetric] len)
    next
      case False
      have "findCharIndex_loop (createUtfSafeCharScanner v) str byteIndex li charCount =
            findCharIndex_loop (createUtfSafeCharScanner v) str byteIndex (li + n) (charCount + 1)"
        using False
        by (subst findCharIndex_loop.simps) (simp add: exec_safe [OF lt] n_def [symmetric])
      also have "\<dots> = (charCount + 1) +
                  countEnds (chars v (drop (li + n) str)) (byteIndex - int (li + n))"
        using nb lt by (intro less.hyps) simp_all
      also have "\<dots> = charCount + countEnds (chars v (drop li str)) (byteIndex - int li)"
        using False
        by (simp add: chars_unfold [OF ne] n_def [symmetric] len add.commute algebra_simps)
      finally show ?thesis .
    qed
  qed
qed

definition offsetOf :: "jsstring list \<Rightarrow> nat \<Rightarrow> nat" where
  "offsetOf cs k = sum_list (map length (take k cs))"

lemma scan_inner_at_match:
  "scan_inner (Some (b, n)) b charIndex b c =
     (if int c < charIndex then (b + n, c + 1) else (b, c))"
  by (subst scan_inner.simps) simp

lemma scan_loop_chars:
  "li \<le> length str \<Longrightarrow> int c \<le> charIndex \<Longrightarrow>
   nat (charIndex - int c) < length (chars v (drop li str)) \<Longrightarrow>
   scan_loop (createUtfSafeCharScanner v) str charIndex li li c =
     int (li + offsetOf (chars v (drop li str)) (nat (charIndex - int c)))"
proof (induction "length str - li" arbitrary: li c rule: less_induct)
  case less
  from less.prems(3) have ne: "drop li str \<noteq> []" by auto
  then have lt: "li < length str" by simp
  define n where "n = spanAt v (drop li str)"
  from span_step [OF lt, of v] have nb: "1 \<le> n" "li + n \<le> length str"
    by (simp_all add: n_def)
  have len: "min (length str - li) n = n" using nb by simp
  show ?case
  proof (cases "int c = charIndex")
    case True
    then show ?thesis
      by (subst scan_loop.simps)
         (simp add: exec_safe [OF lt] scan_inner_at_match offsetOf_def)
  next
    case False
    with less.prems have clt: "int c < charIndex" by simp
    show ?thesis
    proof (cases "int c + 1 = charIndex")
      case True
      then have "nat (charIndex - int c) = 1" by simp
      then show ?thesis using clt True
        by (subst scan_loop.simps)
           (simp add: exec_safe [OF lt] scan_inner_at_match offsetOf_def
              chars_unfold [OF ne] n_def [symmetric] len)
    next
      case False
      then have k2: "nat (charIndex - int c) = Suc (nat (charIndex - int (c + 1)))"
        using clt by simp
      with less.prems(3) have rest: "nat (charIndex - int (c + 1)) <
           length (chars v (drop (li + n) str))"
        by (simp add: chars_unfold [OF ne] n_def [symmetric] add.commute)
      then have "drop (li + n) str \<noteq> []" by auto
      then have lt2: "li + n < length str" by simp
      have "scan_loop (createUtfSafeCharScanner v) str charIndex li li c =
            scan_loop (createUtfSafeCharScanner v) str charIndex (li + n) (li + n) (c + 1)"
        using clt False lt2
        by (subst scan_loop.simps)
           (simp add: exec_safe [OF lt] scan_inner_at_match n_def [symmetric])
      also have "\<dots> = int (li + n + offsetOf (chars v (drop (li + n) str))
                     (nat (charIndex - int (c + 1))))"
        using lt2 clt rest nb by (intro less.hyps) simp_all
      also have "\<dots> = int (li + offsetOf (chars v (drop li str)) (nat (charIndex - int c)))"
        by (simp add: k2 offsetOf_def chars_unfold [OF ne] n_def [symmetric] len add.commute)
      finally show ?thesis .
    qed
  qed
qed

lemma findMatch_None_iff:
  "findMatch re xs pos = None \<longleftrightarrow> (\<forall>k<length xs. matchAlts re (drop k xs) = None)"
proof (induction xs arbitrary: pos)
  case Nil
  then show ?case by simp
next
  case (Cons x xs)
  show ?case
  proof (cases "matchAlts re (x # xs)")
    case None
    have "(\<forall>k<length (x # xs). matchAlts re (drop k (x # xs)) = None) \<longleftrightarrow>
          (\<forall>k<length xs. matchAlts re (drop k xs) = None)"
      using None by (auto simp: less_Suc_eq_0_disj)
    with None Cons.IH [of "pos + 1"] show ?thesis by simp
  next
    case (Some n)
    then have "\<not> (\<forall>k<length (x # xs). matchAlts re (drop k (x # xs)) = None)"
      by (auto intro: exI [of _ 0])
    with Some show ?thesis by simp
  qed
qed

lemma containsUnsafeUtfChars_iff:
  "containsUnsafeUtfChars v str \<longleftrightarrow>
     (\<exists>k<length str. matchAlts (createUnsafeUtfCharFinder v) (drop k str) \<noteq> None)"
proof -
  have "containsUnsafeUtfChars v str \<longleftrightarrow> findMatch (createUnsafeUtfCharFinder v) str 0 \<noteq> None"
    by (auto simp: containsUnsafeUtfChars_def test_def exec_def split: option.splits)
  then show ?thesis by (simp add: findMatch_None_iff)
qed

lemma spanAt_no_finder:
  "matchAlts (createUnsafeUtfCharFinder v) (x # xs) = None \<Longrightarrow> spanAt v (x # xs) = 1"
  by (cases v)
     (simp_all add: spanAt_def createUtfSafeCharScannerHandlingSurrogatePairs_def
        createUtfSafeCharScannerHandingRegionalIndicatorPairsAndSurrogatePairs_def
        createSurrogatePairScanner_def createRegionalIndicatorAndSurrogatePairScanner_def
        split: option.splits)

lemma chars_all_single:
  "(\<forall>k<length xs. matchAlts (createUnsafeUtfCharFinder v) (drop k xs) = None) \<Longrightarrow>
   chars v xs = map (\<lambda>x. [x]) xs"
proof (induction xs)
  case Nil
  then show ?case by simp
next
  case (Cons x xs)
  from Cons.prems have "matchAlts (createUnsafeUtfCharFinder v) (x # xs) = None"
    by (auto dest: spec [of _ 0])
  then have s: "spanAt v (x # xs) = 1" by (rule spanAt_no_finder)
  have "\<forall>k<length xs. matchAlts (createUnsafeUtfCharFinder v) (drop k xs) = None"
  proof (intro allI impI)
    fix k assume "k < length xs"
    with Cons.prems have "matchAlts (createUnsafeUtfCharFinder v) (drop (Suc k) (x # xs)) = None"
      by (auto simp del: drop_Suc_Cons)
    then show "matchAlts (createUnsafeUtfCharFinder v) (drop k xs) = None" by simp
  qed
  from Cons.IH [OF this] s show ?case by (simp add: chars.simps(2))
qed

lemma chars_safe_text:
  "\<not> containsUnsafeUtfChars v str \<Longrightarrow> chars v str = map (\<lambda>x. [x]) str"
  by (rule chars_all_single) (simp add: containsUnsafeUtfChars_iff)

lemma offsetOf_singles: "k \<le> length xs \<Longrightarrow> offsetOf (map (\<lambda>x. [x]) xs) k = k"
  by (simp add: offsetOf_def take_map o_def sum_list_triv)

lemma countEnds_last:
  "cs \<noteq> [] \<Longrightarrow> \<forall>c\<in>set cs. c \<noteq> [] \<Longrightarrow>
   countEnds cs (int (length (concat cs)) - 1) = int (length cs) - 1"
proof (induction cs)
  case Nil
  then show ?case by simp
next
  case (Cons c cs)
  show ?case
  proof (cases "cs = []")
    case True
    then show ?thesis by simp
  next
    case False
    with Cons.prems have "concat cs \<noteq> []" by (cases cs) auto
    then have pos: "0 < length (concat cs)" by simp
    have "int (length (concat (c # cs))) - 1 - int (length c) = int (length (concat cs)) - 1"
      by simp
    with Cons.IH [OF False] Cons.prems pos show ?thesis by simp
  qed
qed

lemma countEnds_offsetOf:
  "\<forall>c\<in>set cs. c \<noteq> [] \<Longrightarrow> k < length cs \<Longrightarrow> countEnds cs (int (offsetOf cs k)) = int k"
proof (induction cs arbitrary: k)
  case Nil
  then show ?case by simp
next
  case (Cons c cs)
  show ?case
  proof (cases k)
    case 0
    with Cons.prems show ?thesis by (simp add: offsetOf_def)
  next
    case (Suc j)
    with Cons.prems have "countEnds cs (int (offsetOf cs j)) = int j"
      by (intro Cons.IH) simp_all
    with Suc show ?thesis by (simp add: offsetOf_def)
  qed
qed

lemma offsetOf_less:
  "\<forall>c\<in>set cs. c \<noteq> [] \<Longrightarrow> k < length cs \<Longrightarrow> offsetOf cs k < length (concat cs)"
proof (induction cs arbitrary: k)
  case Nil
  then show ?case by simp
next
  case (Cons c cs)
  show ?case
  proof (cases k)
    case 0
    with Cons.prems show ?thesis by (simp add: offsetOf_def)
  next
    case (Suc j)
    with Cons.prems have "offsetOf cs j < length (concat cs)"
      by (intro Cons.IH) simp_all
    with Suc show ?thesis by (simp add: offsetOf_def)
  qed
qed

lemma containsUnsafeUtfChars_Nil: "\<not> containsUnsafeUtfChars v []"
  by (simp add: containsUnsafeUtfChars_iff)

lemma lengthOf_chars: "lengthOf v str = int (length (chars v str))"
proof (cases "containsUnsafeUtfChars v str")
  case False
  then show ?thesis
    by (simp add: lengthOf_def findCharIndex_def chars_safe_text)
next
  case True
  then have ne: "str \<noteq> []" using containsUnsafeUtfChars_Nil by auto
  then have cne: "chars v str \<noteq> []" by (cases str) (simp_all add: chars.simps(2))
  have "findCharIndex v str (int (length str) - 1) =
        countEnds (chars v str) (int (length (concat (chars v str))) - 1)"
    using True by (simp add: findCharIndex_def findCharIndex_loop_chars concat_chars)
  also have "\<dots> = int (length (chars v str)) - 1"
    using cne chars_nonempty by (intro countEnds_last) auto
  finally show ?thesis by (simp add: lengthOf_def)
qed

lemma findByteIndex_chars:
  assumes "0 \<le> i" "i < lengthOf v str"
  shows "findByteIndex v str i = int (offsetOf (chars v str) (nat i))"
proof (cases "containsUnsafeUtfChars v str")
  case False
  from assms have "nat i \<le> length str"
    by (simp add: lengthOf_chars chars_safe_text [OF False])
  with assms False show ?thesis
    by (simp add: findByteIndex_def scan_def chars_safe_text offsetOf_singles)
next
  case True
  from assms have "nat (i - int 0) < length (chars v (drop 0 str))"
    by (simp add: lengthOf_chars)
  with assms have "scan_loop (createUtfSafeCharScanner v) str i 0 0 0 =
     int (0 + offsetOf (chars v (drop 0 str)) (nat (i - int 0)))"
    by (intro scan_loop_chars) simp_all
  with assms True show ?thesis by (simp add: findByteIndex_def scan_def)
qed

lemma findCharIndex_offsetOf:
  assumes "k < length (chars v str)"
  shows "findCharIndex v str (int (offsetOf (chars v str) k)) = int k"
proof -
  from assms have lt: "offsetOf (chars v str) k < length str"
    using offsetOf_less [of "chars v str" k] chars_nonempty [of _ v str]
    by (auto simp: concat_chars)
  show ?thesis
  proof (cases "containsUnsafeUtfChars v str")
    case False
    from assms have "k \<le> length str" by (simp add: chars_safe_text [OF False])
    with lt False show ?thesis
      by (simp add: findCharIndex_def chars_safe_text offsetOf_singles)
  next
    case True
    have "countEnds (chars v str) (int (offsetOf (chars v str) k)) = int k"
      using assms chars_nonempty by (intro countEnds_offsetOf) auto
    with lt True show ?thesis
      by (simp add: findCharIndex_def findCharIndex_loop_chars)
  qed
qed

lemma lengthOf_stringToCharArray: "lengthOf v T = int (length (stringToCharArray v T))"
  by (simp add: lengthOf_chars stringToCharArray_chars)

lemma chars_Nil_iff: "chars v P = [] \<longleftrightarrow> P = []"
  by (cases P) (simp_all add: chars.simps(2))

lemma length_le_concat: "\<forall>c\<in>set cs. c \<noteq> [] \<Longrightarrow> length cs \<le> length (concat cs)"
proof (induction cs)
  case Nil
  then show ?case by simp
next
  case (Cons c cs)
  then have "c \<noteq> []" "length cs \<le> length (concat cs)" by simp_all
  then show ?case by (cases c) simp_all
qed

lemma length_chars_le: "length (chars v xs) \<le> length xs"
  using length_le_concat [of "chars v xs"] chars_nonempty [of _ v xs]
  by (auto simp: concat_chars)

lemma lengthOf_le_length: "lengthOf v str \<le> int (length str)"
  by (simp add: lengthOf_chars length_chars_le)

lemma lengthOf_nonneg: "0 \<le> lengthOf v str"
  by (simp add: lengthOf_chars)

lemma countEnds_covering:
  assumes "\<forall>c\<in>set cs. c \<noteq> []" "0 \<le> m" "m < int (length (concat cs))"
  shows "0 \<le> countEnds cs m \<and> countEnds cs m < int (length cs) \<and>
         int (offsetOf cs (nat (countEnds cs m))) \<le> m \<and>
         m < int (offsetOf cs (Suc (nat (countEnds cs m))))"
  using assms
proof (induction cs arbitrary: m)
  case Nil
  then show ?case by simp
next
  case (Cons c cs)
  show ?case
  proof (cases "int (length c) > m")
    case True
    with Cons.prems show ?thesis by (simp add: offsetOf_def)
  next
    case False
    with Cons.prems have ih: "0 \<le> countEnds cs (m - int (length c)) \<and>
         countEnds cs (m - int (length c)) < int (length cs) \<and>
         int (offsetOf cs (nat (countEnds cs (m - int (length c))))) \<le> m - int (length c) \<and>
         m - int (length c) < int (offsetOf cs (Suc (nat (countEnds cs (m - int (length c))))))"
      by (intro Cons.IH) simp_all
    then have "nat (1 + countEnds cs (m - int (length c))) =
               Suc (nat (countEnds cs (m - int (length c))))" by (simp add: nat_add_distrib)
    with ih False show ?thesis by (simp add: offsetOf_def)
  qed
qed

lemma findCharIndex_covering:
  assumes "h < length str"
  shows "0 \<le> findCharIndex v str (int h) \<and> findCharIndex v str (int h) < lengthOf v str \<and>
         offsetOf (chars v str) (nat (findCharIndex v str (int h))) \<le> h \<and>
         h < offsetOf (chars v str) (Suc (nat (findCharIndex v str (int h))))"
proof (cases "containsUnsafeUtfChars v str")
  case False
  with assms show ?thesis
    by (simp add: findCharIndex_def lengthOf_chars chars_safe_text offsetOf_singles)
next
  case True
  have "findCharIndex v str (int h) = countEnds (chars v str) (int h)"
    using assms True by (simp add: findCharIndex_def findCharIndex_loop_chars)
  moreover have "0 \<le> countEnds (chars v str) (int h) \<and>
         countEnds (chars v str) (int h) < int (length (chars v str)) \<and>
         int (offsetOf (chars v str) (nat (countEnds (chars v str) (int h)))) \<le> int h \<and>
         int h < int (offsetOf (chars v str) (Suc (nat (countEnds (chars v str) (int h)))))"
    using assms chars_nonempty [of _ v str]
    by (intro countEnds_covering) (auto simp: concat_chars)
  ultimately show ?thesis by (simp add: lengthOf_chars)
qed

lemma chars_drop_offset:
  "k \<le> length (chars v T) \<Longrightarrow>
   chars v (drop (offsetOf (chars v T) k) T) = drop k (chars v T)"
proof (induction k arbitrary: T)
  case 0
  then show ?case by (simp add: offsetOf_def)
next
  case (Suc k)
  then have ne: "T \<noteq> []" by auto
  define n where "n = spanAt v T"
  from spanAt_bounds [OF ne, of v] have nb: "n \<le> length T" by (simp add: n_def)
  have cs: "chars v T = take n T # chars v (drop n T)"
    using chars_unfold [OF ne, of v] by (simp add: n_def)
  with Suc.prems have "k \<le> length (chars v (drop n T))" by simp
  from Suc.IH [OF this] have "chars v (drop (offsetOf (chars v (drop n T)) k) (drop n T)) =
      drop k (chars v (drop n T))" .
  moreover have "offsetOf (chars v T) (Suc k) = n + offsetOf (chars v (drop n T)) k"
    using nb by (simp add: cs offsetOf_def)
  ultimately show ?case by (simp add: cs add.commute)
qed

lemma drop_offsetOf:
  assumes "k < length (chars v T)"
  shows "drop (offsetOf (chars v T) k) T = chars v T ! k @ concat (drop (Suc k) (chars v T))"
proof -
  have "drop (offsetOf (chars v T) k) T = concat (chars v (drop (offsetOf (chars v T) k) T))"
    by (simp add: concat_chars)
  also have "chars v (drop (offsetOf (chars v T) k) T) = drop k (chars v T)"
    using assms by (intro chars_drop_offset) simp
  also have "drop k (chars v T) = chars v T ! k # drop (Suc k) (chars v T)"
    using assms by (simp add: Cons_nth_drop_Suc)
  finally show ?thesis by simp
qed

section \<open>The scan at a character index that is never reached\<close>

lemma scan_inner_done:
  "\<not> int c < charIndex \<Longrightarrow> scan_inner match nextIdx charIndex b c = (b, c)"
  by (subst scan_inner.simps) simp

lemma scan_loop_negative:
  "charIndex < int c \<Longrightarrow> scan_loop scanner str charIndex li b c = -1"
proof (induction scanner str charIndex li b c rule: scan_loop.induct)
  case (1 scanner str charIndex lastIndex byteIndex curCharIndex)
  obtain match lastIndex' where ex: "exec scanner str lastIndex = (match, lastIndex')"
    by (cases "exec scanner str lastIndex")
  have inner: "scan_inner match (case match of Some (idx, n) \<Rightarrow> idx | None \<Rightarrow> length str)
      charIndex byteIndex curCharIndex = (byteIndex, curCharIndex)"
    using 1(2) by (intro scan_inner_done) simp
  show ?case
  proof (cases "byteIndex \<ge> length str \<or> match = None")
    case True
    with 1(2) ex inner show ?thesis
      by (subst scan_loop.simps) auto
  next
    case False
    with 1(2) have "scan_loop scanner str charIndex lastIndex' byteIndex curCharIndex = -1"
      using 1(1) [OF ex [symmetric] inner [symmetric]] by simp
    with 1(2) ex inner False show ?thesis
      by (subst scan_loop.simps) auto
  qed
qed

lemma findByteIndex_negative: "i < 0 \<Longrightarrow> findByteIndex v str i < 0"
  by (simp add: findByteIndex_def scan_def scan_loop_negative)

lemma findByteIndex_nonneg_range:
  assumes "findByteIndex v str i = int b"
  shows "0 \<le> i \<and> i < lengthOf v str \<and> b < length str"
proof -
  have i0: "0 \<le> i"
    using assms findByteIndex_negative [of i v str] by (cases "i < 0") simp_all
  have il: "i < lengthOf v str"
    using assms by (cases "i < lengthOf v str") (simp_all add: findByteIndex_def)
  with i0 have "nat i < length (chars v str)" by (simp add: lengthOf_chars)
  then have "offsetOf (chars v str) (nat i) < length str"
    using offsetOf_less [of "chars v str" "nat i"] chars_nonempty [of _ v str]
    by (auto simp: concat_chars)
  with assms i0 il show ?thesis by (simp add: findByteIndex_chars)
qed

section \<open>The shape of a logical character\<close>

text \<open>
  A match of a UTF-safe scanner has one, two or four code units; with two it is a surrogate
  pair, with four (in \<open>UtfVisualString\<close> only) two of them.  A match is the same in every
  text that extends the matched one.
\<close>

definition isHigh :: "cu \<Rightarrow> bool" where
  "isHigh c = (0xD800 \<le> c \<and> c \<le> 0xDBFF)"

definition isLow :: "cu \<Rightarrow> bool" where
  "isLow c = (0xDC00 \<le> c \<and> c \<le> 0xDFFF)"

lemma isHigh_uint: "isHigh x \<longleftrightarrow> 0xD800 \<le> uint x \<and> uint x \<le> 0xDBFF"
  by (simp add: isHigh_def word_le_def)

lemma isLow_uint: "isLow x \<longleftrightarrow> 0xDC00 \<le> uint x \<and> uint x \<le> 0xDFFF"
  by (simp add: isLow_def word_le_def)

lemma high_not_low: "isHigh c \<Longrightarrow> \<not> isLow c"
  by (auto simp: isHigh_def isLow_def word_le_nat_alt)

lemma low_of_indicator: "0xDDE6 \<le> (c::cu) \<Longrightarrow> c \<le> 0xDDFF \<Longrightarrow> isLow c"
  by (simp add: isLow_def word_le_nat_alt)

lemma matchPat_append_None: "matchPat p (xs @ ys) = None \<Longrightarrow> matchPat p xs = None"
proof (induction p arbitrary: xs)
  case (Unit c)
  then show ?case by (cases xs) (auto split: if_splits)
next
  case (Then c p)
  then show ?case by (cases xs) (auto split: if_splits)
qed

lemma matchPat_append_Some:
  "matchPat p (xs @ ys) = Some n \<Longrightarrow> n \<le> length xs \<Longrightarrow> matchPat p xs = Some n"
proof (induction p arbitrary: xs n)
  case (Unit c)
  from matchPat_bounds [OF Unit(1)] Unit(2) have "xs \<noteq> []" by auto
  with Unit show ?case by (cases xs) (auto split: if_splits)
next
  case (Then c p)
  from matchPat_bounds [OF Then(2)] Then(3) obtain x xs' where xs: "xs = x # xs'"
    by (cases xs) auto
  with Then(2) obtain m where m: "matchPat p (xs' @ ys) = Some m" "n = Suc m" "inClass c x"
    by (auto split: if_splits)
  with Then(3) xs have "m \<le> length xs'" by simp
  from Then(1) [OF m(1) this] m xs show ?case by simp
qed

lemma matchAlts_append_Some:
  "matchAlts re (xs @ ys) = Some n \<Longrightarrow> n \<le> length xs \<Longrightarrow> matchAlts re xs = Some n"
proof (induction re)
  case Nil
  then show ?case by simp
next
  case (Cons p ps)
  show ?case
  proof (cases "matchPat p (xs @ ys)")
    case None
    with Cons matchPat_append_None [OF None] show ?thesis by simp
  next
    case (Some m)
    with Cons.prems have "m = n" by simp
    with Some Cons.prems(2) matchPat_append_Some [of p xs ys n] show ?thesis by simp
  qed
qed

lemma spanAt_append:
  assumes "xs \<noteq> []" "spanAt v (xs @ ys) \<le> length xs"
  shows "spanAt v xs = spanAt v (xs @ ys)"
proof -
  from assms(1) obtain z zs where "xs @ ys = z # zs" by (cases xs) auto
  with safe_matches [of v z zs] obtain n where
    n: "matchAlts (createUtfSafeCharScanner v) (xs @ ys) = Some n" by auto
  with assms(2) have "n \<le> length xs" by (simp add: spanAt_def)
  from matchAlts_append_Some [OF n this] n show ?thesis by (simp add: spanAt_def)
qed

lemma spanAt_cases:
  assumes "xs \<noteq> []"
  shows "spanAt v xs = 1 \<or>
         (\<exists>h l r. xs = h # l # r \<and> isHigh h \<and> isLow l \<and> spanAt v xs = 2) \<or>
         (\<exists>h1 l1 h2 l2 r. xs = h1 # l1 # h2 # l2 # r \<and>
            isHigh h1 \<and> isLow l1 \<and> isHigh h2 \<and> isLow l2 \<and> spanAt v xs = 4)"
proof -
  have pair: "matchPat surrogatePairs xs = None \<or>
        (\<exists>h l r. xs = h # l # r \<and> isHigh h \<and> isLow l \<and> matchPat surrogatePairs xs = Some 2)"
    by (cases xs; cases "tl xs")
       (auto simp: surrogatePairs_def isHigh_def isLow_def)
  have flag: "matchPat regionalIndicatorPairs xs = None \<or>
        (\<exists>h1 l1 h2 l2 r. xs = h1 # l1 # h2 # l2 # r \<and>
            isHigh h1 \<and> isLow l1 \<and> isHigh h2 \<and> isLow l2 \<and>
            matchPat regionalIndicatorPairs xs = Some 4)"
  proof (cases "matchPat regionalIndicatorPairs xs")
    case None
    then show ?thesis by simp
  next
    case (Some n)
    from matchPat_bounds [OF Some] obtain a xs1 where 1: "xs = a # xs1" by (cases xs) auto
    with Some obtain b xs2 where 2: "xs1 = b # xs2"
      by (cases xs1) (auto simp: regionalIndicatorPairs_def split: if_splits)
    with 1 Some obtain c xs3 where 3: "xs2 = c # xs3"
      by (cases xs2) (auto simp: regionalIndicatorPairs_def split: if_splits)
    with 1 2 Some obtain d xs4 where 4: "xs3 = d # xs4"
      by (cases xs3) (auto simp: regionalIndicatorPairs_def split: if_splits)
    from Some 1 2 3 4 have "a = 0xD83C" "0xDDE6 \<le> b" "b \<le> 0xDDFF" "c = 0xD83C"
      "0xDDE6 \<le> d" "d \<le> 0xDDFF" "n = 4"
      by (auto simp: regionalIndicatorPairs_def split: if_splits)
    then have "isHigh a" "isLow b" "isHigh c" "isLow d" "n = 4"
      by (simp_all add: low_of_indicator) (simp_all add: isHigh_def)
    with Some 1 2 3 4 show ?thesis by simp
  qed
  from assms obtain z zs where z: "xs = z # zs" by (cases xs) auto
  have any: "matchPat (Unit AnyCU) xs = Some 1" by (simp add: z)
  show ?thesis
  proof (cases v)
    case UtfString
    with pair any show ?thesis
      by (auto simp: spanAt_def createUtfSafeCharScannerHandlingSurrogatePairs_def)
  next
    case UtfVisualString
    with flag pair any show ?thesis
      by (auto simp: spanAt_def
            createUtfSafeCharScannerHandingRegionalIndicatorPairsAndSurrogatePairs_def)
  qed
qed

lemma matchAlts_Nil: "matchAlts re [] = None"
  using matchAlts_bounds [of re "[]"] by (cases "matchAlts re []") auto

lemma spanAt_le_4: "spanAt v xs \<le> 4"
proof (cases "xs = []")
  case True
  then show ?thesis by (simp add: spanAt_def matchAlts_Nil)
next
  case False
  from spanAt_cases [OF False, of v] show ?thesis by auto
qed

lemma chars_elem_le_4: "c \<in> set (chars v xs) \<Longrightarrow> length c \<le> 4"
proof (induction v xs rule: chars.induct)
  case (1 v)
  then show ?case by simp
next
  case (2 v x xs)
  from spanAt_le_4 [of v "x # xs"] have "length (take (spanAt v (x # xs)) (x # xs)) \<le> 4"
    by simp
  with 2 show ?case by (auto simp: chars.simps(2))
qed

lemma length_concat_le: "\<forall>c\<in>set cs. length c \<le> n \<Longrightarrow> length (concat cs) \<le> n * length cs"
  by (induction cs) auto

lemma length_le_4_lengthOf: "int (length str) \<le> 4 * lengthOf v str"
proof -
  have "length (concat (chars v str)) \<le> 4 * length (chars v str)"
    using chars_elem_le_4 [of _ v str] by (intro length_concat_le) auto
  then show ?thesis by (simp add: lengthOf_chars concat_chars)
qed

lemma nativeSlice_window:
  "b \<le> length str \<Longrightarrow> nativeSlice str (int b) (int b + 8) = take 8 (drop b str)"
  by (simp add: nativeSlice_def Let_def min_def)

lemma charAt_chars:
  assumes "0 \<le> i" "i < lengthOf v T"
  shows "charAt v T i = chars v T ! nat i"
proof -
  let ?cs = "chars v T"
  let ?b = "offsetOf ?cs (nat i)"
  from assms have k: "nat i < length ?cs" by (simp add: lengthOf_chars)
  have fb: "findByteIndex v T i = int ?b" using assms by (rule findByteIndex_chars)
  have bl: "?b < length T"
    using offsetOf_less [of ?cs "nat i"] chars_nonempty [of _ v T] k by (auto simp: concat_chars)
  then have ne: "drop ?b T \<noteq> []" by simp
  define n where "n = spanAt v (drop ?b T)"
  from spanAt_bounds [OF ne, of v] spanAt_le_4 [of v "drop ?b T"]
  have nb: "1 \<le> n" "n \<le> length (drop ?b T)" "n \<le> 4" by (simp_all add: n_def)
  let ?w = "take 8 (drop ?b T)"
  have wne: "?w \<noteq> []" using ne by simp
  have app: "?w @ drop 8 (drop ?b T) = drop ?b T" by (rule append_take_drop_id)
  have "n \<le> length ?w" using nb by simp
  then have "spanAt v (?w @ drop 8 (drop ?b T)) \<le> length ?w"
    unfolding app n_def .
  from spanAt_append [OF wne this] have sw: "spanAt v ?w = n"
    unfolding app n_def .
  have "0 < length ?w" using wne by simp
  from exec_safe [OF this, of v] have ex:
    "exec (createUtfSafeCharScanner v) ?w 0 = (Some (0, n), n)" by (simp add: sw)
  have "charAt v T i = take n ?w"
    using fb bl ex by (simp add: charAt_def nativeSlice_window)
  also have "\<dots> = take n (drop ?b T)" using nb by (simp add: min_def)
  also have "\<dots> = hd (chars v (drop ?b T))"
    using chars_unfold [OF ne, of v] by (simp add: n_def)
  also have "chars v (drop ?b T) = drop (nat i) ?cs"
    using k by (intro chars_drop_offset) simp
  also have "hd (drop (nat i) ?cs) = ?cs ! nat i" using k by (simp add: hd_drop_conv_nth)
  finally show ?thesis .
qed

lemma charAt_empty: "charAt v [] i = []"
proof -
  have "lengthOf v [] = 0" by (simp add: lengthOf_chars)
  then have "findByteIndex v [] i < 0"
    using findByteIndex_negative [of i v "[]"]
    by (cases "i < 0") (simp_all add: findByteIndex_def)
  then show ?thesis by (simp add: charAt_def)
qed

lemma flag_is_pair:
  "matchPat regionalIndicatorPairs xs = Some n \<Longrightarrow> matchPat surrogatePairs xs \<noteq> None"
proof -
  assume m: "matchPat regionalIndicatorPairs xs = Some n"
  from matchPat_bounds [OF m] obtain a xs1 where 1: "xs = a # xs1" by (cases xs) auto
  with m obtain b xs2 where 2: "xs1 = b # xs2"
    by (cases xs1) (auto simp: regionalIndicatorPairs_def split: if_splits)
  from m 1 2 have "a = 0xD83C" "0xDDE6 \<le> b" "b \<le> 0xDDFF"
    by (auto simp: regionalIndicatorPairs_def split: if_splits)
  then have "isHigh a" "isLow b" by (simp_all add: low_of_indicator) (simp add: isHigh_def)
  with 1 2 show ?thesis by (simp add: surrogatePairs_def isHigh_def isLow_def)
qed

lemma finder_visual_None:
  "matchAlts (createUnsafeUtfCharFinder UtfVisualString) xs = None \<longleftrightarrow>
   matchAlts (createUnsafeUtfCharFinder UtfString) xs = None"
  using flag_is_pair [of xs]
  by (auto simp: createRegionalIndicatorAndSurrogatePairScanner_def
        createSurrogatePairScanner_def split: option.splits)

lemma containsUnsafeUtfChars_visual:
  "containsUnsafeUtfChars UtfVisualString str = containsUnsafeUtfChars UtfString str"
proof -
  have "matchAlts (createUnsafeUtfCharFinder UtfVisualString) (drop k str) \<noteq> None \<longleftrightarrow>
        matchAlts (createUnsafeUtfCharFinder UtfString) (drop k str) \<noteq> None" for k
    by (simp only: finder_visual_None)
  then show ?thesis by (simp only: containsUnsafeUtfChars_iff)
qed

section \<open>The scan with the surrogate-pair scanner\<close>

text \<open>
  \<open>charCodeAt\<close> scans with the scanner that matches surrogate pairs only: between two
  matches the inner loop walks one code unit at a time.
\<close>

lemma scan_inner_step:
  "int c < ci \<Longrightarrow> b \<noteq> nx \<Longrightarrow>
   scan_inner m nx ci b c = scan_inner m nx ci (b + 1) (c + 1)"
  by (subst scan_inner.simps) simp

lemma scan_inner_before:
  "b \<le> nx \<Longrightarrow> int c \<le> ci \<Longrightarrow> ci - int c \<le> int (nx - b) \<Longrightarrow>
   scan_inner m nx ci b c = (b + nat (ci - int c), nat ci)"
proof (induction "nx - b" arbitrary: b c)
  case 0
  then have "int c = ci" by simp
  then show ?case by (subst scan_inner.simps) auto
next
  case (Suc d)
  show ?case
  proof (cases "int c < ci")
    case False
    with Suc.prems have "int c = ci" by simp
    then show ?thesis by (subst scan_inner.simps) auto
  next
    case True
    from Suc(2) have ne: "b \<noteq> nx" and d: "d = nx - (b + 1)" by simp_all
    have "scan_inner m nx ci b c = scan_inner m nx ci (b + 1) (c + 1)"
      using True ne by (rule scan_inner_step)
    also have "\<dots> = (b + 1 + nat (ci - int (c + 1)), nat ci)"
      using Suc.prems Suc(2) True by (intro Suc(1) [OF d]) simp_all
    also have "b + 1 + nat (ci - int (c + 1)) = b + nat (ci - int c)"
      using True by simp
    finally show ?thesis .
  qed
qed

lemma scan_inner_beyond:
  "b \<le> nx \<Longrightarrow> ci - int c > int (nx - b) \<Longrightarrow>
   scan_inner m nx ci b c =
     (nx + (case m of Some (idx, n) \<Rightarrow> n | None \<Rightarrow> 1), c + (nx - b) + 1)"
proof (induction "nx - b" arbitrary: b c)
  case 0
  then have "b = nx" "int c < ci" by simp_all
  then show ?case by (subst scan_inner.simps) (simp split: option.splits)
next
  case (Suc d)
  from Suc(2) have ne: "b \<noteq> nx" and d: "d = nx - (b + 1)" by simp_all
  from Suc.prems Suc(2) have lt: "int c < ci" by simp
  have "scan_inner m nx ci b c = scan_inner m nx ci (b + 1) (c + 1)"
    using lt ne by (rule scan_inner_step)
  also have "\<dots> =
        (nx + (case m of Some (idx, n) \<Rightarrow> n | None \<Rightarrow> 1), (c + 1) + (nx - (b + 1)) + 1)"
    using Suc.prems Suc(2) by (intro Suc(1) [OF d]) simp_all
  also have "(c + 1) + (nx - (b + 1)) + 1 = c + (nx - b) + 1"
    using Suc(2) by simp
  finally show ?case .
qed

text \<open>The surrogate-pair scanner and the logical characters of \<open>UtfString\<close>.\<close>

lemma findMatch_pairs_None:
  "findMatch createSurrogatePairScanner xs pos = None \<Longrightarrow>
   chars UtfString xs = map (\<lambda>x. [x]) xs"
  by (rule chars_all_single) (simp add: findMatch_None_iff)

lemma matchAlts_pairs_Some:
  "matchAlts createSurrogatePairScanner xs = Some n \<Longrightarrow> n = 2 \<and> spanAt UtfString xs = 2"
  by (cases xs; cases "tl xs")
     (auto simp: createSurrogatePairScanner_def surrogatePairs_def spanAt_def
        createUtfSafeCharScannerHandlingSurrogatePairs_def split: if_splits option.splits)

lemma findMatch_pairs_Some:
  "findMatch createSurrogatePairScanner xs pos = Some (idx, n) \<Longrightarrow>
   n = 2 \<and> pos \<le> idx \<and> idx - pos + 2 \<le> length xs \<and>
   length (chars UtfString xs) =
     (idx - pos) + 1 + length (chars UtfString (drop (idx - pos + 2) xs))"
proof (induction xs arbitrary: pos)
  case Nil
  then show ?case by simp
next
  case (Cons x xs)
  show ?case
  proof (cases "matchAlts createSurrogatePairScanner (x # xs)")
    case None
    then have s: "spanAt UtfString (x # xs) = 1"
      using spanAt_no_finder [of UtfString x xs] by simp
    from None Cons.prems have "findMatch createSurrogatePairScanner xs (pos + 1) = Some (idx, n)"
      by simp
    from Cons.IH [OF this] have ih: "n = 2" "pos + 1 \<le> idx" "idx - (pos + 1) + 2 \<le> length xs"
      "length (chars UtfString xs) =
         (idx - (pos + 1)) + 1 + length (chars UtfString (drop (idx - (pos + 1) + 2) xs))"
      by simp_all
    from ih(2) have e: "idx - pos = Suc (idx - (pos + 1))" by simp
    from ih s show ?thesis by (simp add: chars.simps(2) e)
  next
    case (Some m)
    with Cons.prems have "idx = pos" "n = m" by simp_all
    moreover from matchAlts_pairs_Some [OF Some] have "m = 2" "spanAt UtfString (x # xs) = 2"
      by simp_all
    moreover from matchAlts_bounds [OF Some] have "m \<le> length (x # xs)" by simp
    ultimately show ?thesis by (simp add: chars.simps(2))
  qed
qed

lemma findMatch_pairs_chars:
  "findMatch createSurrogatePairScanner xs pos = Some (idx, n) \<Longrightarrow>
   chars UtfString xs =
     map (\<lambda>x. [x]) (take (idx - pos) xs) @
       take 2 (drop (idx - pos) xs) # chars UtfString (drop (idx - pos + 2) xs)"
proof (induction xs arbitrary: pos)
  case Nil
  then show ?case by simp
next
  case (Cons x xs)
  show ?case
  proof (cases "matchAlts createSurrogatePairScanner (x # xs)")
    case None
    then have s: "spanAt UtfString (x # xs) = 1"
      using spanAt_no_finder [of UtfString x xs] by simp
    from None Cons.prems have fm: "findMatch createSurrogatePairScanner xs (pos + 1) = Some (idx, n)"
      by simp
    from findMatch_bounds [OF fm] have "pos + 1 \<le> idx" by simp
    then have e: "idx - pos = Suc (idx - (pos + 1))" by simp
    from Cons.IH [OF fm] s show ?thesis by (simp add: chars.simps(2) e)
  next
    case (Some m)
    with Cons.prems have "idx = pos" by simp
    moreover from matchAlts_pairs_Some [OF Some] have "spanAt UtfString (x # xs) = 2" by simp
    ultimately show ?thesis by (simp add: chars.simps(2))
  qed
qed

lemma offsetOf_singles_prefix:
  "k \<le> length xs \<Longrightarrow> offsetOf (map (\<lambda>x. [x]) xs @ cs) k = k"
  by (simp add: offsetOf_def take_map o_def sum_list_triv)

lemma offsetOf_past_prefix:
  "offsetOf (map (\<lambda>x. [x]) xs @ c # cs) (length xs + 1 + k) =
     length xs + length c + offsetOf cs k"
  by (simp add: offsetOf_def o_def sum_list_triv)

lemma scan_loop_pairs_beyond:
  "li \<le> length str \<Longrightarrow> int (length (chars UtfString (drop li str))) \<le> ci - int c \<Longrightarrow>
   scan_loop createSurrogatePairScanner str ci li li c = -1 \<or>
   int (length str) \<le> scan_loop createSurrogatePairScanner str ci li li c"
proof (induction "length str - li" arbitrary: li c rule: less_induct)
  case less
  let ?P = createSurrogatePairScanner
  let ?R = "length (chars UtfString (drop li str))"
  from less.prems have cle: "int c \<le> ci" by simp
  show ?case
  proof (cases "findMatch ?P (drop li str) li")
    case None
    with less.prems have ex: "exec ?P str li = (None, 0)" by (simp add: exec_def)
    from findMatch_pairs_None [OF None] have R: "?R = length str - li" by simp
    show ?thesis
    proof (cases "ci - int c = int (length str - li)")
      case True
      have "scan_inner None (length str) ci li c = (li + nat (ci - int c), nat ci)"
        using less.prems(1) cle True by (intro scan_inner_before) simp_all
      with True less.prems(1) cle have "scan_inner None (length str) ci li c = (length str, nat ci)"
        by simp
      with ex cle have "scan_loop ?P str ci li li c = int (length str)"
        by (subst scan_loop.simps) simp
      then show ?thesis by simp
    next
      case False
      with less.prems(2) R have gt: "int (length str - li) < ci - int c" by simp
      have inner: "scan_inner None (length str) ci li c =
            (length str + 1, c + (length str - li) + 1)"
        using less.prems(1) gt scan_inner_beyond [of li "length str" ci c None] by simp
      have "scan_loop ?P str ci li li c =
            (if int (c + (length str - li) + 1) = ci then int (length str + 1) else -1)"
        using ex inner by (subst scan_loop.simps) simp
      then show ?thesis by simp
    qed
  next
    case (Some p)
    obtain idx n where p: "p = (idx, n)" by (cases p)
    from findMatch_pairs_Some [OF Some [unfolded p]]
    have n: "n = 2" and idx: "li \<le> idx" and bound: "idx - li + 2 \<le> length str - li"
      and R: "?R = (idx - li) + 1 + length (chars UtfString (drop (idx - li + 2) (drop li str)))"
      by simp_all
    from idx bound less.prems(1) have le2: "idx + 2 \<le> length str" by simp
    from idx have dr: "drop (idx - li + 2) (drop li str) = drop (idx + 2) str"
      by (simp add: add.commute)
    let ?R' = "length (chars UtfString (drop (idx + 2) str))"
    from R dr have R2: "?R = (idx - li) + 1 + ?R'" by simp
    from Some p n less.prems(1) have ex: "exec ?P str li = (Some (idx, 2), idx + 2)"
      by (simp add: exec_def)
    from less.prems(2) R2 have gt: "int (idx - li) < ci - int c" by simp
    have inner: "scan_inner (Some (idx, 2)) idx ci li c = (idx + 2, c + (idx - li) + 1)"
      using idx gt scan_inner_beyond [of li idx ci c "Some (idx, 2)"] by simp
    show ?thesis
    proof (cases "int (c + (idx - li) + 1) = ci")
      case True
      with less.prems(2) R2 have "int ?R' \<le> 0" by linarith
      then have "?R' = 0" by simp
      then have "drop (idx + 2) str = []" by (cases "drop (idx + 2) str") (simp_all add: chars.simps(2))
      with le2 have "idx + 2 = length str" by simp
      moreover have "scan_loop ?P str ci li li c = int (idx + 2)"
        using ex inner True by (subst scan_loop.simps) simp
      ultimately show ?thesis by simp
    next
      case False
      show ?thesis
      proof (cases "idx + 2 \<ge> length str")
        case True
        have "scan_loop ?P str ci li li c = -1"
          using ex inner False True by (subst scan_loop.simps) simp
        then show ?thesis by simp
      next
        case lt: False
        have step: "scan_loop ?P str ci li li c =
              scan_loop ?P str ci (idx + 2) (idx + 2) (c + (idx - li) + 1)"
          using ex inner False lt by (subst scan_loop.simps) simp
        have "scan_loop ?P str ci (idx + 2) (idx + 2) (c + (idx - li) + 1) = -1 \<or>
              int (length str) \<le> scan_loop ?P str ci (idx + 2) (idx + 2) (c + (idx - li) + 1)"
          using lt idx less.prems(2) R2 by (intro less.hyps) simp_all
        with step show ?thesis by simp
      qed
    qed
  qed
qed

lemma scan_loop_pairs_chars:
  "li \<le> length str \<Longrightarrow> int c \<le> ci \<Longrightarrow>
   nat (ci - int c) < length (chars UtfString (drop li str)) \<Longrightarrow>
   scan_loop createSurrogatePairScanner str ci li li c =
     int (li + offsetOf (chars UtfString (drop li str)) (nat (ci - int c)))"
proof (induction "length str - li" arbitrary: li c rule: less_induct)
  case less
  let ?P = createSurrogatePairScanner
  let ?cs = "chars UtfString (drop li str)"
  let ?k = "nat (ci - int c)"
  note cle = less.prems(2)
  show ?case
  proof (cases "findMatch ?P (drop li str) li")
    case None
    with less.prems have ex: "exec ?P str li = (None, 0)" by (simp add: exec_def)
    from findMatch_pairs_None [OF None] have cs: "?cs = map (\<lambda>x. [x]) (drop li str)" .
    with less.prems(3) have k: "?k < length str - li" by simp
    have "scan_inner None (length str) ci li c = (li + ?k, nat ci)"
      using less.prems(1) cle k by (intro scan_inner_before) simp_all
    with ex cle have "scan_loop ?P str ci li li c = int (li + ?k)"
      by (subst scan_loop.simps) simp
    moreover have "offsetOf ?cs ?k = ?k"
      using k by (simp add: cs offsetOf_singles)
    ultimately show ?thesis by simp
  next
    case (Some p)
    obtain idx n where p: "p = (idx, n)" by (cases p)
    from findMatch_pairs_Some [OF Some [unfolded p]]
    have n: "n = 2" and idx: "li \<le> idx" and bound: "idx - li + 2 \<le> length str - li"
      by simp_all
    define j where "j = idx - li"
    from idx bound less.prems(1) have le2: "idx + 2 \<le> length str" by simp
    from idx have dr: "drop (j + 2) (drop li str) = drop (idx + 2) str"
      by (simp add: add.commute j_def)
    let ?cs' = "chars UtfString (drop (idx + 2) str)"
    let ?pre = "take j (drop li str)"
    let ?pair = "take 2 (drop j (drop li str))"
    have lpre: "length ?pre = j" using bound by (simp add: j_def)
    have lpair: "length ?pair = 2" using bound by (simp add: j_def)
    from findMatch_pairs_chars [OF Some [unfolded p]] dr
    have cs: "?cs = map (\<lambda>x. [x]) ?pre @ ?pair # ?cs'" by (simp add: j_def)
    from Some p n less.prems(1) have ex: "exec ?P str li = (Some (idx, 2), idx + 2)"
      by (simp add: exec_def)
    show ?thesis
    proof (cases "?k \<le> j")
      case True
      have "scan_inner (Some (idx, 2)) idx ci li c = (li + ?k, nat ci)"
        using idx cle True by (intro scan_inner_before) (simp_all add: j_def)
      with ex cle have "scan_loop ?P str ci li li c = int (li + ?k)"
        by (subst scan_loop.simps) simp
      moreover have "offsetOf ?cs ?k = ?k"
        using True lpre unfolding cs by (intro offsetOf_singles_prefix) simp
      ultimately show ?thesis by simp
    next
      case False
      then have gt: "int (idx - li) < ci - int c" by (simp add: j_def)
      have inner: "scan_inner (Some (idx, 2)) idx ci li c = (idx + 2, c + j + 1)"
        using idx gt scan_inner_beyond [of li idx ci c "Some (idx, 2)"] by (simp add: j_def)
      define k' where "k' = ?k - (j + 1)"
      from False have k': "?k = j + 1 + k'" by (simp add: k'_def)
      have off: "offsetOf ?cs ?k = j + 2 + offsetOf ?cs' k'"
        unfolding cs k' using offsetOf_past_prefix [of ?pre ?pair ?cs' k']
        by (simp only: lpre lpair)
      from less.prems(3) have k'lt: "k' < length ?cs'"
        unfolding cs k' by (simp add: lpre)
      have c': "ci - int (c + j + 1) = int k'" using k' cle by linarith
      show ?thesis
      proof (cases "k' = 0")
        case True
        with c' have "int (c + j + 1) = ci" by simp
        then have "scan_loop ?P str ci li li c = int (idx + 2)"
          using ex inner by (subst scan_loop.simps) simp
        with off True idx show ?thesis by (simp add: offsetOf_def j_def)
      next
        case nz: False
        with c' have ne: "int (c + j + 1) \<noteq> ci" by simp
        from k'lt have "drop (idx + 2) str \<noteq> []" by auto
        then have lt: "idx + 2 < length str" by simp
        have step: "scan_loop ?P str ci li li c = scan_loop ?P str ci (idx + 2) (idx + 2) (c + j + 1)"
          using ex inner ne lt by (subst scan_loop.simps) simp
        have "scan_loop ?P str ci (idx + 2) (idx + 2) (c + j + 1) =
              int (idx + 2 + offsetOf ?cs' (nat (ci - int (c + j + 1))))"
          using lt idx c' k'lt by (intro less.hyps) simp_all
        with step off c' idx show ?thesis by (simp add: j_def)
      qed
    qed
  qed
qed

lemma nativeCharCodeAt_beyond: "int (length str) \<le> i \<Longrightarrow> nativeCharCodeAt str i = NaN"
  by (simp add: nativeCharCodeAt_def)

lemma findSurrogateByteIndex_chars:
  assumes "0 \<le> i" "i < lengthOf UtfString T"
  shows "findSurrogateByteIndex UtfString T i = int (offsetOf (chars UtfString T) (nat i))"
proof (cases "containsUnsafeUtfChars UtfString T")
  case False
  from assms have "nat i \<le> length T"
    by (simp add: lengthOf_chars chars_safe_text [OF False])
  with assms False show ?thesis
    by (simp add: findSurrogateByteIndex_def scan_def chars_safe_text offsetOf_singles)
next
  case True
  from assms have "nat (i - int 0) < length (chars UtfString (drop 0 T))"
    by (simp add: lengthOf_chars)
  with assms have "scan_loop createSurrogatePairScanner T i 0 0 0 =
     int (0 + offsetOf (chars UtfString (drop 0 T)) (nat (i - int 0)))"
    by (intro scan_loop_pairs_chars) simp_all
  with assms True show ?thesis by (simp add: findSurrogateByteIndex_def scan_def)
qed

lemma charCodeAt_past_end:
  assumes "lengthOf UtfString T \<le> i"
  shows "charCodeAt UtfString T i = NaN"
proof (cases "containsUnsafeUtfChars UtfString T")
    case False
  then have "lengthOf UtfString T = int (length T)"
    by (simp add: lengthOf_chars chars_safe_text)
  with assms False show ?thesis
    by (simp add: charCodeAt_def findSurrogateByteIndex_def scan_def nativeCharCodeAt_beyond)
next
  case True
  from assms have "int (length (chars UtfString (drop 0 T))) \<le> i - int 0"
    by (simp add: lengthOf_chars)
  then have "scan_loop createSurrogatePairScanner T i 0 0 0 = -1 \<or>
             int (length T) \<le> scan_loop createSurrogatePairScanner T i 0 0 0"
    by (intro scan_loop_pairs_beyond) simp_all
  with True show ?thesis
    by (auto simp: charCodeAt_def findSurrogateByteIndex_def scan_def nativeCharCodeAt_beyond Let_def)
qed

lemma charCodeAt_visual: "charCodeAt UtfVisualString str i = charCodeAt UtfString str i"
  by (simp add: charCodeAt_def findSurrogateByteIndex_def scan_def containsUnsafeUtfChars_visual)

section \<open>Arithmetic of the conversions\<close>

lemma toInt32_id: "- (2 ^ 31) \<le> x \<Longrightarrow> x < 2 ^ 31 \<Longrightarrow> toInt32 x = x"
  by (simp add: toInt32_def sint_sbintrunc' signed_take_bit_int_eq_self)

lemma and_255: "(x::int) AND 0xff = x mod 256"
proof -
  have "(0xff::int) = mask 8" by (simp add: mask_eq_exp_minus_1)
  then have "x AND 0xff = take_bit 8 x" by (simp add: take_bit_eq_mask)
  then show ?thesis by (simp add: take_bit_eq_mod)
qed

lemma and_1023: "(x::int) AND 0x3ff = x mod 1024"
proof -
  have "(0x3ff::int) = mask 10" by (simp add: mask_eq_exp_minus_1)
  then have "x AND 0x3ff = take_bit 10 x" by (simp add: take_bit_eq_mask)
  then show ?thesis by (simp add: take_bit_eq_mod)
qed

section \<open>Claims\<close>

subsection \<open>C1: the round trip of a character index\<close>

text \<open>
  C1. For every text \<open>T\<close> and every integer \<open>i\<close> with \<open>0 \<le> i < lengthOf T\<close>, converting the
  character index to a code-unit index and back is the identity, in the default class
  \<open>UtfString\<close> and in the visual class \<open>UtfVisualString\<close> alike.
\<close>

theorem findCharIndex_findByteIndex:
  assumes "0 \<le> i" "i < lengthOf v T"
  shows "findCharIndex v T (findByteIndex v T i) = i"
proof -
  from assms have "nat i < length (chars v T)" by (simp add: lengthOf_chars)
  from findCharIndex_offsetOf [OF this] assms show ?thesis
    by (simp add: findByteIndex_chars)
qed

theorem findCharIndex_findByteIndex_witness:
  "(0::int) \<le> 1 \<and> 1 < lengthOf UtfVisualString [0xD83C, 0xDDE9, 0xD83C, 0xDDEA, 0x78] \<and>
   findCharIndex UtfVisualString [0xD83C, 0xDDE9, 0xD83C, 0xDDEA, 0x78]
     (findByteIndex UtfVisualString [0xD83C, 0xDDE9, 0xD83C, 0xDDEA, 0x78] 1) = 1"
proof -
  have h: "1 < lengthOf UtfVisualString [0xD83C, 0xDDE9, 0xD83C, 0xDDEA, 0x78]"
    by code_simp
  from findCharIndex_findByteIndex [OF _ h] h show ?thesis by simp
qed

subsection \<open>C2: the code-unit offset of a character index\<close>

text \<open>
  C2. For every text \<open>T\<close> and character index \<open>i \<ge> 0\<close>, \<open>findByteIndex T i\<close> is -1 if
  \<open>i \<ge> lengthOf T\<close>; otherwise it is the sum of the lengths of the \<open>i\<close> logical characters
  before the \<open>i\<close>-th one, and it is \<open>i\<close> itself when the text contains no multi-unit span.
\<close>

theorem findByteIndex_offset:
  assumes "0 \<le> i"
  shows "(lengthOf v T \<le> i \<longrightarrow> findByteIndex v T i = -1) \<and>
         (i < lengthOf v T \<longrightarrow>
            findByteIndex v T i =
              int (sum_list (map length (take (nat i) (stringToCharArray v T)))) \<and>
            (\<not> containsUnsafeUtfChars v T \<longrightarrow> findByteIndex v T i = i))"
proof (intro conjI impI)
  assume "lengthOf v T \<le> i"
  then show "findByteIndex v T i = -1" by (simp add: findByteIndex_def)
next
  assume "i < lengthOf v T"
  with assms show "findByteIndex v T i =
      int (sum_list (map length (take (nat i) (stringToCharArray v T))))"
    by (simp add: findByteIndex_chars offsetOf_def stringToCharArray_chars)
next
  assume "i < lengthOf v T" "\<not> containsUnsafeUtfChars v T"
  then show "findByteIndex v T i = i" by (simp add: findByteIndex_def scan_def)
qed

theorem findByteIndex_offset_witness:
  "(0::int) \<le> 2 \<and> 2 < lengthOf UtfString [0x61, 0xD83D, 0xDE42, 0x62] \<and>
   findByteIndex UtfString [0x61, 0xD83D, 0xDE42, 0x62] 2 = 3 \<and>
   lengthOf UtfString [0x61, 0xD83D, 0xDE42, 0x62] \<le> 3 \<and>
   findByteIndex UtfString [0x61, 0xD83D, 0xDE42, 0x62] 3 = -1 \<and>
   1 < lengthOf UtfString [0x61, 0x62] \<and> \<not> containsUnsafeUtfChars UtfString [0x61, 0x62] \<and>
   findByteIndex UtfString [0x61, 0x62] 1 = 1"
proof -
  have a: "2 < lengthOf UtfString [0x61, 0xD83D, 0xDE42, 0x62]" by code_simp
  have b: "lengthOf UtfString [0x61, 0xD83D, 0xDE42, 0x62] \<le> 3" by code_simp
  have c: "1 < lengthOf UtfString [0x61, 0x62]" by code_simp
  have d: "\<not> containsUnsafeUtfChars UtfString [0x61, 0x62]" by code_simp
  have e: "int (sum_list (map length (take (nat 2)
             (stringToCharArray UtfString [0x61, 0xD83D, 0xDE42, 0x62])))) = 3" by code_simp
  from findByteIndex_offset [of 2 UtfString "[0x61, 0xD83D, 0xDE42, 0x62]"]
       findByteIndex_offset [of 3 UtfString "[0x61, 0xD83D, 0xDE42, 0x62]"]
       findByteIndex_offset [of 1 UtfString "[0x61, 0x62]"] a b c d e
  show ?thesis by simp
qed

subsection \<open>C3: code points\<close>

fun codePointOf :: "jsstring \<Rightarrow> int" where
  "codePointOf [] = 0"
| "codePointOf [x] = uint x"
| "codePointOf (h # l # r) = (uint h - 0xD800) * 0x400 + (uint l - 0xDC00) + 0x10000"

fun validChar :: "jsstring \<Rightarrow> bool" where
  "validChar [x] = (\<not> isHigh x \<and> \<not> isLow x)"
| "validChar [h, l] = (isHigh h \<and> isLow l)"
| "validChar c = False"

definition pairedSurrogates :: "jsstring \<Rightarrow> bool" where
  "pairedSurrogates T = list_all validChar (stringToCharArray UtfString T)"

text \<open>
  C3. Decoding to code points and encoding again is claimed to give the text back when all
  surrogates are paired.  The loop of \<open>stringToCodePoints\<close> takes the code point 0 for the
  end of the text: of \<open>a\<close>, U+0000, \<open>b\<close>, a text without any surrogate, only \<open>a\<close> comes
  back.
\<close>

theorem stringToCodePoints_nul:
  "pairedSurrogates [0x61, 0, 0x62] \<and>
   stringToCodePoints UtfString [0x61, 0, 0x62] = [0x61] \<and>
   codePointsToString (stringToCodePoints UtfString [0x61, 0, 0x62]) = [0x61] \<and>
   codePointsToString (stringToCodePoints UtfString [0x61, 0, 0x62]) \<noteq> [0x61, 0, 0x62]"
  by code_simp

lemma charCodeAt_valid:
  assumes "0 \<le> i" "i < lengthOf UtfString T" "validChar (chars UtfString T ! nat i)"
  shows "charCodeAt UtfString T i = Num (codePointOf (chars UtfString T ! nat i))"
proof -
  let ?cs = "chars UtfString T"
  let ?b = "offsetOf ?cs (nat i)"
  from assms have k: "nat i < length ?cs" by (simp add: lengthOf_chars)
  have fb: "findSurrogateByteIndex UtfString T i = int ?b"
    using assms(1,2) by (rule findSurrogateByteIndex_chars)
  note dr = drop_offsetOf [OF k]
  from assms(3) consider x where "?cs ! nat i = [x]" "\<not> isHigh x" "\<not> isLow x"
    | h l where "?cs ! nat i = [h, l]" "isHigh h" "isLow l"
    by (cases "?cs ! nat i" rule: validChar.cases) auto
  then show ?thesis
  proof cases
    case 1
    with dr have d: "drop ?b T = x # concat (drop (Suc (nat i)) ?cs)" by simp
    then have "?b < length T" by (cases "?b < length T") auto
    moreover from d have "T ! ?b = x" by (metis nth_via_drop)
    ultimately have "nativeCharCodeAt T (int ?b) = Num (uint x)"
      by (simp add: nativeCharCodeAt_def)
    with 1 fb show ?thesis
      by (auto simp: charCodeAt_def isHigh_uint)
  next
    case 2
    with dr have d: "drop ?b T = h # l # concat (drop (Suc (nat i)) ?cs)" by simp
    then have "length (drop ?b T) \<ge> 2" by simp
    then have bl: "?b + 1 < length T" by simp
    from d have "T ! ?b = h" by (metis nth_via_drop)
    moreover from d have "drop (Suc ?b) T = l # concat (drop (Suc (nat i)) ?cs)"
      by (metis drop_Suc list.sel(3) tl_drop)
    then have "T ! (?b + 1) = l" by (metis Suc_eq_plus1 nth_via_drop)
    ultimately have "nativeCharCodeAt T (int ?b) = Num (uint h)"
      "nativeCharCodeAt T (int ?b + 1) = Num (uint l)"
      using bl by (simp_all add: nativeCharCodeAt_def nat_add_distrib)
    with 2 fb show ?thesis
      by (auto simp: charCodeAt_def isHigh_uint)
  qed
qed

lemma stringFromCharCode_single: "stringFromCharCode (uint x) = [x]" for x :: cu
proof -
  have "uint x < 65536" using uint_bounded [of x] by simp
  then show ?thesis by (simp add: stringFromCharCode_def fromCharCode_def)
qed

lemma stringFromCharCode_pair:
  assumes "isHigh h" "isLow l"
  shows "stringFromCharCode (codePointOf [h, l]) = [h, l]"
proof -
  define a where "a = uint h - 0xD800"
  define b where "b = uint l - 0xDC00"
  from assms have a: "0 \<le> a" "a < 1024" and b: "0 \<le> b" "b < 1024"
    by (simp_all add: a_def b_def isHigh_uint isLow_uint)
  have cp: "codePointOf [h, l] = a * 1024 + b + 0x10000" by (simp add: a_def b_def)
  have big: "a * 1024 + b + 0x10000 > 0xffff" using a b by simp
  have ab: "0 \<le> a * 1024 + b" "a * 1024 + b < 2 ^ 31" using a b by simp_all
  then have t32: "toInt32 (a * 1024 + b) = a * 1024 + b" by (intro toInt32_id) simp_all
  have hi: "(a * 1024 + b) div 1024 = a" using b by simp
  have lo: "(a * 1024 + b) mod 1024 = b" "b mod 1024 = b" "b div 1024 = 0" using b by simp_all
  have "fromCharCode (0xd800 + a) = h" "fromCharCode (0xdc00 + b) = l"
    by (simp_all add: a_def b_def fromCharCode_def)
  with big show ?thesis
    unfolding cp by (simp add: stringFromCharCode_def Let_def t32 drop_bit_eq_div and_1023 hi lo)
qed

lemma stringFromCharCode_codePointOf:
  assumes "validChar c"
  shows "stringFromCharCode (codePointOf c) = c"
proof (cases c rule: validChar.cases)
  case (1 x)
  then show ?thesis by (simp add: stringFromCharCode_single)
next
  case (2 h l)
  with assms show ?thesis by (simp add: stringFromCharCode_pair del: codePointOf.simps)
qed (use assms in simp_all)

lemma codePointOf_nonzero: "validChar c \<Longrightarrow> 0 \<notin> set c \<Longrightarrow> codePointOf c \<noteq> 0"
proof (cases c rule: validChar.cases)
  case (1 x)
  assume "0 \<notin> set c"
  with 1 show ?thesis by (simp add: uint_0_iff)
next
  case (2 h l)
  assume "validChar c"
  with 2 show ?thesis by (simp add: isHigh_uint isLow_uint)
qed simp_all

lemma stringToCodePoints_loop_valid:
  assumes "list_all validChar (chars UtfString T)" "0 \<notin> set T"
  shows "i \<le> length (chars UtfString T) \<Longrightarrow>
         stringToCodePoints_loop UtfString T i acc =
           acc @ map codePointOf (drop i (chars UtfString T))"
proof (induction "length (chars UtfString T) - i" arbitrary: i acc)
  case 0
  then have i: "i = length (chars UtfString T)" by simp
  then have "lengthOf UtfString T \<le> int i" by (simp add: lengthOf_chars)
  then have "charCodeAt UtfString T (int i) = NaN" by (rule charCodeAt_past_end)
  with i show ?case by (subst stringToCodePoints_loop.simps) simp
next
  case (Suc d)
  let ?cs = "chars UtfString T"
  from Suc(2) have lt: "i < length ?cs" by simp
  with length_chars_le [of UtfString T] have iT: "i < length T" by simp
  from lt assms(1) have v: "validChar (?cs ! i)" by (simp add: list_all_length)
  from nth_mem [OF lt] have "set (?cs ! i) \<subseteq> set (concat ?cs)" by auto
  with assms(2) have nz: "0 \<notin> set (?cs ! i)" by (auto simp: concat_chars)
  have "charCodeAt UtfString T (int i) = Num (codePointOf (?cs ! i))"
    using lt v charCodeAt_valid [of "int i" T] by (simp add: lengthOf_chars)
  then have "stringToCodePoints_loop UtfString T i acc =
             stringToCodePoints_loop UtfString T (i + 1) (acc @ [codePointOf (?cs ! i)])"
    using iT codePointOf_nonzero [OF v nz] by (subst stringToCodePoints_loop.simps) simp
  also have "\<dots> = (acc @ [codePointOf (?cs ! i)]) @ map codePointOf (drop (i + 1) ?cs)"
    using Suc(2) lt by (intro Suc(1)) simp_all
  also have "\<dots> = acc @ map codePointOf (drop i ?cs)"
    using lt by (simp add: Cons_nth_drop_Suc [symmetric])
  finally show ?case .
qed

text \<open>
  Apart from the code unit 0, C3 holds: when every logical character of \<open>T\<close> is a single
  non-surrogate code unit or a surrogate pair, and no code unit is 0, the code points of
  \<open>T\<close> are those of its logical characters and encoding them gives \<open>T\<close> back.
\<close>

lemma codePoints_roundtrip_without_nul:
  assumes "pairedSurrogates T" "0 \<notin> set T"
  shows "stringToCodePoints UtfString T = map codePointOf (stringToCharArray UtfString T) \<and>
         codePointsToString (stringToCodePoints UtfString T) = T"
proof -
  let ?cs = "chars UtfString T"
  from assms(1) have v: "list_all validChar ?cs"
    by (simp add: pairedSurrogates_def stringToCharArray_chars)
  from stringToCodePoints_loop_valid [OF v assms(2), of 0 "[]"]
  have cp: "stringToCodePoints UtfString T = map codePointOf ?cs"
    by (simp add: stringToCodePoints_def)
  have "map (stringFromCharCode \<circ> codePointOf) ?cs = ?cs"
    using v by (intro map_idI) (simp add: list_all_iff stringFromCharCode_codePointOf)
  then have "codePointsToString (map codePointOf ?cs) = concat ?cs"
    by (simp add: codePointsToString_def)
  with cp show ?thesis by (simp add: concat_chars stringToCharArray_chars)
qed

subsection \<open>C4: bytes\<close>

text \<open>
  C4. \<open>stringToBytes\<close> is claimed to give two bytes for every code unit.  The code unit 0
  gives none: the three units \<open>a\<close>, U+0000, \<open>b\<close> give four bytes, which read back as \<open>ab\<close>.
\<close>

theorem stringToBytes_nul:
  "stringToBytes [0x61, 0, 0x62] = [0, 0x61, 0, 0x62] \<and>
   int (length (stringToBytes [0x61, 0, 0x62])) \<noteq> 2 * int (length [0x61, 0, 0x62 :: cu]) \<and>
   bytesToString (stringToBytes [0x61, 0, 0x62]) = [0x61, 0x62]"
  by code_simp

lemma stringToBytes_inner_unit:
  assumes "0 < c" "c < 65536"
  shows "stringToBytes_inner c [] = (if c < 256 then [c] else [c mod 256, c div 256])"
proof -
  have c32: "toInt32 c = c" using assms by (intro toInt32_id) simp_all
  let ?h = "c div 256"
  have h: "0 \<le> ?h" "?h < 256" using assms by simp_all
  then have h32: "toInt32 ?h = ?h" by (intro toInt32_id) simp_all
  have 1: "stringToBytes_inner c [] = stringToBytes_inner ?h [c mod 256]"
    using assms(1) by (subst stringToBytes_inner.simps) (simp add: c32 and_255 drop_bit_eq_div)
  show ?thesis
  proof (cases "c < 256")
    case True
    then have "?h = 0" using assms(1) by simp
    with 1 True show ?thesis by (subst (asm) stringToBytes_inner.simps) simp
  next
    case False
    then have hp: "0 < ?h" using assms by simp
    have "?h div 256 = 0" using h by simp
    then have "stringToBytes_inner ?h [c mod 256] = stringToBytes_inner 0 [c mod 256, ?h]"
      using hp h by (subst stringToBytes_inner.simps) (simp add: h32 and_255 drop_bit_eq_div)
    also have "\<dots> = [c mod 256, ?h]" by (subst stringToBytes_inner.simps) simp
    finally show ?thesis using 1 False by simp
  qed
qed

lemma stringToBytes_unit:
  assumes "c \<noteq> 0"
  shows "stringToBytes (c # str) = uint c div 256 # uint c mod 256 # stringToBytes str"
proof -
  have "0 < uint c" using assms by (simp add: word_greater_zero_iff uint_0_iff less_le)
  moreover have "uint c < 65536" using uint_bounded [of c] by simp
  ultimately have "stringToBytes_inner (uint c) [] =
      (if uint c < 256 then [uint c] else [uint c mod 256, uint c div 256])"
    by (rule stringToBytes_inner_unit)
  then show ?thesis by (simp add: Let_def)
qed

lemma bytes_combine:
  fixes c :: cu
  shows "fromCharCode (toInt32 (push_bit 8 (toInt32 (uint c div 256))) OR toInt32 (uint c mod 256)) = c"
proof -
  let ?h = "uint c div 256" and ?l = "uint c mod 256"
  have ub: "0 \<le> uint c" "uint c < 65536" using uint_bounded [of c] by simp_all
  then have h: "0 \<le> ?h" "?h < 256" by (auto simp: pos_imp_zdiv_nonneg_iff)
  have l: "0 \<le> ?l" "?l < 256" by simp_all
  have h32: "toInt32 ?h = ?h" using h by (intro toInt32_id) simp_all
  have l32: "toInt32 ?l = ?l" using l by (intro toInt32_id) simp_all
  have p32: "toInt32 (push_bit 8 ?h) = push_bit 8 ?h"
    using h by (intro toInt32_id) (simp_all add: push_bit_eq_mult)
  have "push_bit 8 ?h + take_bit 8 (uint c) = push_bit 8 ?h OR take_bit 8 (uint c)"
    by (rule disjunctive_add) (auto simp: bit_push_bit_iff bit_take_bit_iff)
  then have "push_bit 8 ?h OR ?l = ?h * 256 + ?l"
    by (simp add: take_bit_eq_mod push_bit_eq_mult)
  also have "\<dots> = uint c" by simp
  finally show ?thesis by (simp add: h32 l32 p32 fromCharCode_def)
qed

text \<open>
  Apart from the code unit 0, C4 holds: a text without it gives two bytes per code unit,
  high byte first, and \<open>bytesToString\<close> reads them back.
\<close>

lemma stringToBytes_without_nul:
  assumes "0 \<notin> set T"
  shows "stringToBytes T = concat (map (\<lambda>c. [uint c div 256, uint c mod 256]) T) \<and>
         length (stringToBytes T) = 2 * length T \<and>
         bytesToString (stringToBytes T) = T"
  using assms
proof (induction T)
  case Nil
  then show ?case by simp
next
  case (Cons c T)
  then have c: "c \<noteq> 0" and ih: "0 \<notin> set T \<longrightarrow>
      length (stringToBytes T) = 2 * length T \<and> bytesToString (stringToBytes T) = T"
    and eq: "stringToBytes T = concat (map (\<lambda>c. [uint c div 256, uint c mod 256]) T)"
    by auto
  from Cons.prems ih have "length (stringToBytes T) = 2 * length T"
    "bytesToString (stringToBytes T) = T" by simp_all
  then have "length (stringToBytes (c # T)) = 2 * length (c # T)"
    "bytesToString (stringToBytes (c # T)) = c # T"
    by (simp_all add: stringToBytes_unit [OF c] bytes_combine del: stringToBytes.simps)
  moreover have "stringToBytes (c # T) =
      concat (map (\<lambda>c. [uint c div 256, uint c mod 256]) (c # T))"
    by (simp add: stringToBytes_unit [OF c] eq del: stringToBytes.simps)
  ultimately show ?case by blast
qed

subsection \<open>C5: the two classes on a flag\<close>

text \<open>
  C5. The text made of the flag of Germany (two regional-indicator surrogate pairs, four
  code units) followed by \<open>x\<close> has three logical characters in \<open>UtfString\<close> and two in
  \<open>UtfVisualString\<close>: the visual scanner takes the four code units of the flag as one match.
  In either class the logical length is the number of matches of the scanner of the class.
\<close>

theorem lengthOf_flag:
  "lengthOf UtfString [0xD83C, 0xDDE9, 0xD83C, 0xDDEA, 0x78] = 3 \<and>
   lengthOf UtfVisualString [0xD83C, 0xDDE9, 0xD83C, 0xDDEA, 0x78] = 2 \<and>
   stringToCharArray UtfString [0xD83C, 0xDDE9, 0xD83C, 0xDDEA, 0x78] =
     [[0xD83C, 0xDDE9], [0xD83C, 0xDDEA], [0x78]] \<and>
   stringToCharArray UtfVisualString [0xD83C, 0xDDE9, 0xD83C, 0xDDEA, 0x78] =
     [[0xD83C, 0xDDE9, 0xD83C, 0xDDEA], [0x78]] \<and>
   lengthOf v T = int (length (stringToCharArray v T))"
proof -
  have "lengthOf UtfString [0xD83C, 0xDDE9, 0xD83C, 0xDDEA, 0x78] = 3 \<and>
   lengthOf UtfVisualString [0xD83C, 0xDDE9, 0xD83C, 0xDDEA, 0x78] = 2 \<and>
   stringToCharArray UtfString [0xD83C, 0xDDE9, 0xD83C, 0xDDEA, 0x78] =
     [[0xD83C, 0xDDE9], [0xD83C, 0xDDEA], [0x78]] \<and>
   stringToCharArray UtfVisualString [0xD83C, 0xDDE9, 0xD83C, 0xDDEA, 0x78] =
     [[0xD83C, 0xDDE9, 0xD83C, 0xDDEA], [0x78]]"
    by code_simp
  moreover have "lengthOf v T = int (length (stringToCharArray v T))"
    by (rule lengthOf_stringToCharArray)
  ultimately show ?thesis by blast
qed

subsection \<open>C6: padding\<close>

lemma padEnd_loop_empty_pad:
  assumes "padEnd_loop v padString targetLength newStr iPadStr = Some y"
  shows "\<not> (padString = [] \<and> iPadStr = 0 \<and> lengthOf v newStr < targetLength)"
proof (rule padEnd_loop.raw_induct
    [where P = "\<lambda>v p t s i y. \<not> (p = [] \<and> i = 0 \<and> lengthOf v s < t)", OF _ assms])
  fix f :: "variant \<Rightarrow> jsstring \<Rightarrow> int \<Rightarrow> jsstring \<Rightarrow> int \<Rightarrow> jsstring option"
  fix v p t s i y
  assume ih: "\<And>v p t s i y. f v p t s i = Some y \<Longrightarrow> \<not> (p = [] \<and> i = 0 \<and> lengthOf v s < t)"
  assume step: "(if lengthOf v (s @ charAt v p i) < t
      then f v p t (s @ charAt v p i) (if lengthOf v p \<le> i + 1 then 0 else i + 1)
      else Some (s @ charAt v p i)) = Some y"
  show "\<not> (p = [] \<and> i = 0 \<and> lengthOf v s < t)"
  proof
    assume a: "p = [] \<and> i = 0 \<and> lengthOf v s < t"
    then have l0: "lengthOf v p = 0" by (simp add: lengthOf_chars)
    from a step l0 have "f v [] t s 0 = Some y"
      by (simp add: charAt_empty)
    from ih [OF this] a show False by simp
  qed
qed

lemma padEnd_empty_pad:
  "lengthOf v str < targetLength \<Longrightarrow> padEnd v str targetLength (Some []) = None"
  using padEnd_loop_empty_pad [of v "[]" targetLength str 0]
  by (cases "padEnd_loop v [] targetLength str 0") (auto simp: padEnd_def)

lemma padStart_loop_empty_pad:
  assumes "padStart_loop v str padString targetLength fullPadding iPadStr = Some y"
  shows "\<not> (padString = [] \<and> iPadStr = 0 \<and> fullPadding = [] \<and> lengthOf v str < targetLength)"
proof (rule padStart_loop.raw_induct
    [where P = "\<lambda>v s p t fp i y. \<not> (p = [] \<and> i = 0 \<and> fp = [] \<and> lengthOf v s < t)",
     OF _ assms])
  fix f :: "variant \<Rightarrow> jsstring \<Rightarrow> jsstring \<Rightarrow> int \<Rightarrow> jsstring \<Rightarrow> int \<Rightarrow> jsstring option"
  fix v s p t fp i y
  assume ih: "\<And>v s p t fp i y. f v s p t fp i = Some y \<Longrightarrow>
      \<not> (p = [] \<and> i = 0 \<and> fp = [] \<and> lengthOf v s < t)"
  assume step: "(if lengthOf v ((fp @ charAt v p i) @ s) < t
      then f v s p t (fp @ charAt v p i) (if lengthOf v p \<le> i + 1 then 0 else i + 1)
      else Some ((fp @ charAt v p i) @ s)) = Some y"
  show "\<not> (p = [] \<and> i = 0 \<and> fp = [] \<and> lengthOf v s < t)"
  proof
    assume a: "p = [] \<and> i = 0 \<and> fp = [] \<and> lengthOf v s < t"
    then have l0: "lengthOf v p = 0" by (simp add: lengthOf_chars)
    from a step l0 have "f v s [] t [] 0 = Some y"
      by (simp add: charAt_empty)
    from ih [OF this] a show False by simp
  qed
qed

lemma padStart_empty_pad:
  "lengthOf v str < targetLength \<Longrightarrow> padStart v str targetLength (Some []) = None"
  using padStart_loop_empty_pad [of v str "[]" targetLength "[]" 0]
  by (cases "padStart_loop v str [] targetLength [] 0") (auto simp: padStart_def)

text \<open>
  C6. \<open>padEnd\<close> and \<open>padStart\<close> are claimed to return for every pad text.  With the empty
  pad text \<open>charAt\<close> yields the empty text at every index, the padded text never grows, and
  the loop is never left: padding \<open>x\<close> to length 3 with the empty text has no result.
\<close>

theorem pad_empty_padString_diverges:
  "padEnd UtfString [0x78] 3 (Some []) = None \<and> padStart UtfString [0x78] 3 (Some []) = None"
proof -
  have "lengthOf UtfString [0x78] < 3" by code_simp
  then show ?thesis by (simp add: padEnd_empty_pad padStart_empty_pad)
qed

text \<open>The text that \<open>k\<close> iterations of the padding loops collect, starting at index \<open>i\<close>.\<close>

fun padding :: "jsstring list \<Rightarrow> nat \<Rightarrow> nat \<Rightarrow> jsstring" where
  "padding cs i 0 = []"
| "padding cs i (Suc k) = cs ! i @ padding cs (if length cs \<le> i + 1 then 0 else i + 1) k"

lemma padding_cycle:
  "i < length cs \<Longrightarrow>
   padding cs i k = concat (map (\<lambda>j. cs ! ((i + j) mod length cs)) [0..<k])"
proof (induction k arbitrary: i)
  case 0
  then show ?case by simp
next
  case (Suc k)
  let ?i' = "if length cs \<le> i + 1 then 0 else i + 1"
  from Suc.prems have i': "?i' < length cs" "?i' = (i + 1) mod length cs"
    by (auto simp: not_le dest: le_antisym)
  have "padding cs i (Suc k) = cs ! i @ padding cs ?i' k" by simp
  also have "padding cs ?i' k = concat (map (\<lambda>j. cs ! ((?i' + j) mod length cs)) [0..<k])"
    using i'(1) by (rule Suc.IH)
  also have "map (\<lambda>j. cs ! ((?i' + j) mod length cs)) [0..<k] =
             map (\<lambda>j. cs ! ((i + j) mod length cs)) [1..<Suc k]"
  proof -
    have "(?i' + j) mod length cs = (i + Suc j) mod length cs" for j
      unfolding i'(2) by (simp add: mod_add_left_eq)
    then show ?thesis
      by (simp add: map_Suc_upt [symmetric] del: upt_Suc)
  qed
  finally show ?case using Suc.prems by (simp add: upt_rec [of 0 "Suc k"] del: upt_Suc)
qed

lemma pad_step:
  assumes "i < length (chars v P)"
  shows "charAt v P (int i) = chars v P ! i" "chars v P ! i \<noteq> []"
    "(if lengthOf v P \<le> int i + 1 then 0 else int i + 1) =
       int (if length (chars v P) \<le> i + 1 then 0 else i + 1)"
proof -
  from assms show "charAt v P (int i) = chars v P ! i"
    using charAt_chars [of "int i" v P] by (simp add: lengthOf_chars)
  from assms chars_nonempty [of "chars v P ! i" v P] show "chars v P ! i \<noteq> []" by simp
  show "(if lengthOf v P \<le> int i + 1 then 0 else int i + 1) =
       int (if length (chars v P) \<le> i + 1 then 0 else i + 1)"
    by (auto simp: lengthOf_chars)
qed

lemma padEnd_loop_returns:
  assumes "i < length (chars v P)"
  shows "\<exists>k\<ge>1. padEnd_loop v P n s (int i) = Some (s @ padding (chars v P) i k) \<and>
           n \<le> lengthOf v (s @ padding (chars v P) i k) \<and>
           (\<forall>k'. 1 \<le> k' \<and> k' < k \<longrightarrow> lengthOf v (s @ padding (chars v P) i k') < n)"
  using assms
proof (induction "nat (4 * n) - length s" arbitrary: s i rule: less_induct)
  case less
  let ?cs = "chars v P"
  let ?c = "?cs ! i"
  let ?i' = "if length ?cs \<le> i + 1 then 0 else i + 1"
  note st = pad_step [OF less.prems]
  have unfold: "padEnd_loop v P n s (int i) =
      (if lengthOf v (s @ ?c) < n then padEnd_loop v P n (s @ ?c) (int ?i') else Some (s @ ?c))"
    by (subst padEnd_loop.simps) (simp only: st)
  show ?case
  proof (cases "lengthOf v (s @ ?c) < n")
    case False
    with unfold have "padEnd_loop v P n s (int i) = Some (s @ padding ?cs i 1)"
      "n \<le> lengthOf v (s @ padding ?cs i 1)" by simp_all
    then show ?thesis by (intro exI [of _ 1]) simp
  next
    case True
    have "int (length (s @ ?c)) \<le> 4 * lengthOf v (s @ ?c)" by (rule length_le_4_lengthOf)
    with True have "int (length (s @ ?c)) < 4 * n" by simp
    moreover have "length s < length (s @ ?c)" using st(2) by simp
    ultimately have dec: "nat (4 * n) - length (s @ ?c) < nat (4 * n) - length s" by linarith
    have i': "?i' < length ?cs" using less.prems by auto
    from less.hyps [OF dec i'] obtain k where k: "1 \<le> k"
      "padEnd_loop v P n (s @ ?c) (int ?i') = Some ((s @ ?c) @ padding ?cs ?i' k)"
      "n \<le> lengthOf v ((s @ ?c) @ padding ?cs ?i' k)"
      "\<forall>k'. 1 \<le> k' \<and> k' < k \<longrightarrow> lengthOf v ((s @ ?c) @ padding ?cs ?i' k') < n"
      by blast
    have pk: "s @ padding ?cs i (Suc j) = (s @ ?c) @ padding ?cs ?i' j" for j by simp
    have "\<forall>k'. 1 \<le> k' \<and> k' < Suc k \<longrightarrow> lengthOf v (s @ padding ?cs i k') < n"
    proof (intro allI impI)
      fix k' assume a: "1 \<le> k' \<and> k' < Suc k"
      then obtain j where j: "k' = Suc j" by (cases k') auto
      show "lengthOf v (s @ padding ?cs i k') < n"
      proof (cases j)
        case 0
        with j True show ?thesis by simp
      next
        case (Suc j')
        with a j have "1 \<le> j \<and> j < k" by simp
        with k(4) have "lengthOf v ((s @ ?c) @ padding ?cs ?i' j) < n" by blast
        then show ?thesis unfolding j pk .
      qed
    qed
    moreover have "padEnd_loop v P n s (int i) = Some (s @ padding ?cs i (Suc k))"
      using unfold True k(2) by (simp only: pk) simp
    moreover have "n \<le> lengthOf v (s @ padding ?cs i (Suc k))"
      using k(3) by (simp only: pk)
    ultimately show ?thesis by (intro exI [of _ "Suc k"]) simp
  qed
qed

lemma padStart_loop_returns:
  assumes "i < length (chars v P)"
  shows "\<exists>k\<ge>1. padStart_loop v str P n fp (int i) = Some ((fp @ padding (chars v P) i k) @ str) \<and>
           n \<le> lengthOf v ((fp @ padding (chars v P) i k) @ str) \<and>
           (\<forall>k'. 1 \<le> k' \<and> k' < k \<longrightarrow> lengthOf v ((fp @ padding (chars v P) i k') @ str) < n)"
  using assms
proof (induction "nat (4 * n) - length fp" arbitrary: fp i rule: less_induct)
  case less
  let ?cs = "chars v P"
  let ?c = "?cs ! i"
  let ?i' = "if length ?cs \<le> i + 1 then 0 else i + 1"
  note st = pad_step [OF less.prems]
  have unfold: "padStart_loop v str P n fp (int i) =
      (if lengthOf v ((fp @ ?c) @ str) < n then padStart_loop v str P n (fp @ ?c) (int ?i')
       else Some ((fp @ ?c) @ str))"
    by (subst padStart_loop.simps) (simp only: st)
  show ?case
  proof (cases "lengthOf v ((fp @ ?c) @ str) < n")
    case False
    with unfold have "padStart_loop v str P n fp (int i) = Some ((fp @ padding ?cs i 1) @ str)"
      "n \<le> lengthOf v ((fp @ padding ?cs i 1) @ str)" by simp_all
    then show ?thesis by (intro exI [of _ 1]) simp
  next
    case True
    have "int (length ((fp @ ?c) @ str)) \<le> 4 * lengthOf v ((fp @ ?c) @ str)"
      by (rule length_le_4_lengthOf)
    with True have "int (length (fp @ ?c)) < 4 * n" by simp
    moreover have "length fp < length (fp @ ?c)" using st(2) by simp
    ultimately have dec: "nat (4 * n) - length (fp @ ?c) < nat (4 * n) - length fp" by linarith
    have i': "?i' < length ?cs" using less.prems by auto
    from less.hyps [OF dec i'] obtain k where k: "1 \<le> k"
      "padStart_loop v str P n (fp @ ?c) (int ?i') = Some (((fp @ ?c) @ padding ?cs ?i' k) @ str)"
      "n \<le> lengthOf v (((fp @ ?c) @ padding ?cs ?i' k) @ str)"
      "\<forall>k'. 1 \<le> k' \<and> k' < k \<longrightarrow> lengthOf v (((fp @ ?c) @ padding ?cs ?i' k') @ str) < n"
      by blast
    have pk: "(fp @ padding ?cs i (Suc j)) @ str = ((fp @ ?c) @ padding ?cs ?i' j) @ str" for j
      by simp
    have "\<forall>k'. 1 \<le> k' \<and> k' < Suc k \<longrightarrow> lengthOf v ((fp @ padding ?cs i k') @ str) < n"
    proof (intro allI impI)
      fix k' assume a: "1 \<le> k' \<and> k' < Suc k"
      then obtain j where j: "k' = Suc j" by (cases k') auto
      show "lengthOf v ((fp @ padding ?cs i k') @ str) < n"
      proof (cases j)
        case 0
        with j True show ?thesis by simp
      next
        case (Suc j')
        with a j have "1 \<le> j \<and> j < k" by simp
        with k(4) have "lengthOf v (((fp @ ?c) @ padding ?cs ?i' j) @ str) < n" by blast
        then show ?thesis unfolding j pk .
      qed
    qed
    moreover have "padStart_loop v str P n fp (int i) = Some ((fp @ padding ?cs i (Suc k)) @ str)"
      using unfold True k(2) by (simp only: pk) simp
    moreover have "n \<le> lengthOf v ((fp @ padding ?cs i (Suc k)) @ str)"
      using k(3) by (simp only: pk)
    ultimately show ?thesis by (intro exI [of _ "Suc k"]) simp
  qed
qed

definition cycled :: "jsstring list \<Rightarrow> nat \<Rightarrow> jsstring" where
  "cycled cs k = concat (map (\<lambda>j. cs ! (j mod length cs)) [0..<k])"

lemma padding_cycled: "cs \<noteq> [] \<Longrightarrow> padding cs 0 k = cycled cs k"
  using padding_cycle [of 0 cs k] by (simp add: cycled_def)

text \<open>
  Apart from the empty pad text, C6 holds in both classes: with a pad text \<open>P \<noteq> []\<close> the
  loops return; the result is \<open>T\<close> itself when the target length is at most \<open>lengthOf T\<close>,
  and otherwise \<open>T\<close> followed (\<open>padEnd\<close>) or preceded (\<open>padStart\<close>) by the first \<open>k \<ge> 1\<close>
  characters of the cycle through the logical characters of \<open>P\<close>, for the least \<open>k\<close> that
  brings the logical length to the target.
\<close>

lemma pad_nonempty_padString_returns:
  assumes "P \<noteq> []"
  shows "(n \<le> lengthOf v T \<longrightarrow>
            padEnd v T n (Some P) = Some T \<and> padStart v T n (Some P) = Some T) \<and>
         (lengthOf v T < n \<longrightarrow>
            (\<exists>k\<ge>1. padEnd v T n (Some P) = Some (T @ cycled (stringToCharArray v P) k) \<and>
                n \<le> lengthOf v (T @ cycled (stringToCharArray v P) k) \<and>
                (\<forall>k'. 1 \<le> k' \<and> k' < k \<longrightarrow>
                   lengthOf v (T @ cycled (stringToCharArray v P) k') < n)) \<and>
            (\<exists>k\<ge>1. padStart v T n (Some P) = Some (cycled (stringToCharArray v P) k @ T) \<and>
                n \<le> lengthOf v (cycled (stringToCharArray v P) k @ T) \<and>
                (\<forall>k'. 1 \<le> k' \<and> k' < k \<longrightarrow>
                   lengthOf v (cycled (stringToCharArray v P) k' @ T) < n)))"
proof -
  from assms have ne: "chars v P \<noteq> []" by (simp add: chars_Nil_iff)
  then have i0: "0 < length (chars v P)" by simp
  have pc: "padding (chars v P) 0 k = cycled (stringToCharArray v P) k" for k
    using padding_cycled [OF ne] by (simp add: stringToCharArray_chars)
  from padEnd_loop_returns [OF i0, of n T] have e:
    "\<exists>k\<ge>1. padEnd_loop v P n T 0 = Some (T @ cycled (stringToCharArray v P) k) \<and>
        n \<le> lengthOf v (T @ cycled (stringToCharArray v P) k) \<and>
        (\<forall>k'. 1 \<le> k' \<and> k' < k \<longrightarrow> lengthOf v (T @ cycled (stringToCharArray v P) k') < n)"
    by (simp add: pc)
  from padStart_loop_returns [OF i0, of T n "[]"] have s:
    "\<exists>k\<ge>1. padStart_loop v T P n [] 0 = Some (cycled (stringToCharArray v P) k @ T) \<and>
        n \<le> lengthOf v (cycled (stringToCharArray v P) k @ T) \<and>
        (\<forall>k'. 1 \<le> k' \<and> k' < k \<longrightarrow> lengthOf v (cycled (stringToCharArray v P) k' @ T) < n)"
    by (simp add: pc)
  show ?thesis
  proof (intro conjI impI)
    assume "n \<le> lengthOf v T"
    then show "padEnd v T n (Some P) = Some T" "padStart v T n (Some P) = Some T"
      by (simp_all add: padEnd_def padStart_def)
  next
    assume "lengthOf v T < n"
    with e show "\<exists>k\<ge>1. padEnd v T n (Some P) = Some (T @ cycled (stringToCharArray v P) k) \<and>
                n \<le> lengthOf v (T @ cycled (stringToCharArray v P) k) \<and>
                (\<forall>k'. 1 \<le> k' \<and> k' < k \<longrightarrow>
                   lengthOf v (T @ cycled (stringToCharArray v P) k') < n)"
      by (simp add: padEnd_def)
  next
    assume "lengthOf v T < n"
    with s show "\<exists>k\<ge>1. padStart v T n (Some P) = Some (cycled (stringToCharArray v P) k @ T) \<and>
                n \<le> lengthOf v (cycled (stringToCharArray v P) k @ T) \<and>
                (\<forall>k'. 1 \<le> k' \<and> k' < k \<longrightarrow>
                   lengthOf v (cycled (stringToCharArray v P) k' @ T) < n)"
      by (simp add: padStart_def)
  qed
qed

lemma padStart_scenario:
  "padStart UtfString [0x78] 3 (Some [0x61, 0x62]) = Some [0x61, 0x62, 0x78] \<and>
   lengthOf UtfString [0x61, 0x62, 0x78] = 3 \<and>
   padEnd UtfString [0x78] 3 None = Some [0x78, 0x20, 0x20]"
  by code_simp

subsection \<open>C7: searching by logical index\<close>

definition occursAt :: "jsstring \<Rightarrow> jsstring \<Rightarrow> nat \<Rightarrow> bool" where
  "occursAt str searchValue h = (h \<le> length str \<and> take (length searchValue) (drop h str) = searchValue)"

lemma nativeIndexOf_from_none:
  "(\<forall>j\<le>length xs. take (length N) (drop j xs) \<noteq> N) \<Longrightarrow> nativeIndexOf_from xs N k = -1"
proof (induction xs arbitrary: k)
  case Nil
  then show ?case by auto
next
  case (Cons x xs)
  from Cons.prems have "take (length N) (x # xs) \<noteq> N" by (auto dest: spec [of _ 0])
  moreover have "\<forall>j\<le>length xs. take (length N) (drop j xs) \<noteq> N"
  proof (intro allI impI)
    fix j assume "j \<le> length xs"
    with Cons.prems have "take (length N) (drop (Suc j) (x # xs)) \<noteq> N"
      by (auto simp del: drop_Suc_Cons)
    then show "take (length N) (drop j xs) \<noteq> N" by simp
  qed
  ultimately show ?case using Cons.IH by simp
qed

lemma nativeIndexOf_from_least:
  "j \<le> length xs \<Longrightarrow> take (length N) (drop j xs) = N \<Longrightarrow>
   (\<forall>j'<j. take (length N) (drop j' xs) \<noteq> N) \<Longrightarrow>
   nativeIndexOf_from xs N k = int (k + j)"
proof (induction xs arbitrary: k j)
  case Nil
  then show ?case by auto
next
  case (Cons x xs)
  show ?case
  proof (cases j)
    case 0
    with Cons.prems show ?thesis by simp
  next
    case (Suc i)
    with Cons.prems have first: "take (length N) (x # xs) \<noteq> N" by (auto dest: spec [of _ 0])
    have "\<forall>j'<i. take (length N) (drop j' xs) \<noteq> N"
    proof (intro allI impI)
      fix j' assume "j' < i"
      with Cons.prems(3) Suc have "take (length N) (drop (Suc j') (x # xs)) \<noteq> N"
        by (auto simp del: drop_Suc_Cons)
      then show "take (length N) (drop j' xs) \<noteq> N" by simp
    qed
    with Cons.prems Suc have "nativeIndexOf_from xs N (k + 1) = int (k + 1 + i)"
      by (intro Cons.IH) simp_all
    with first Suc show ?thesis by simp
  qed
qed

lemma nativeIndexOf_none:
  assumes "b \<le> length str" "\<forall>h\<ge>b. \<not> occursAt str N h"
  shows "nativeIndexOf str N (int b) = -1"
proof -
  have "\<forall>j\<le>length (drop b str). take (length N) (drop j (drop b str)) \<noteq> N"
  proof (intro allI impI)
    fix j assume "j \<le> length (drop b str)"
    with assms(1) have "b + j \<le> length str" by simp
    with assms(2) have "\<not> occursAt str N (b + j)" by simp
    then show "take (length N) (drop j (drop b str)) \<noteq> N"
      using \<open>b + j \<le> length str\<close> by (simp add: occursAt_def add.commute)
  qed
  from nativeIndexOf_from_none [OF this] assms(1) show ?thesis
    by (simp add: nativeIndexOf_def)
qed

lemma nativeIndexOf_least:
  assumes "b \<le> h" "occursAt str N h" "\<forall>h'. b \<le> h' \<and> h' < h \<longrightarrow> \<not> occursAt str N h'"
  shows "nativeIndexOf str N (int b) = int h"
proof -
  from assms have hl: "h \<le> length str" by (simp add: occursAt_def)
  with assms(1) have bl: "b \<le> length str" by simp
  have 1: "h - b \<le> length (drop b str)" using hl by simp
  have 2: "take (length N) (drop (h - b) (drop b str)) = N"
    using assms(1,2) by (simp add: occursAt_def)
  have 3: "\<forall>j'<h - b. take (length N) (drop j' (drop b str)) \<noteq> N"
  proof (intro allI impI)
    fix j' assume "j' < h - b"
    then have "b \<le> b + j' \<and> b + j' < h" by simp
    with assms(3) have "\<not> occursAt str N (b + j')" by blast
    moreover have "b + j' \<le> length str" using \<open>j' < h - b\<close> hl by simp
    ultimately show "take (length N) (drop j' (drop b str)) \<noteq> N"
      by (simp add: occursAt_def add.commute)
  qed
  from nativeIndexOf_from_least [OF 1 2 3, of b] bl assms(1) show ?thesis
    by (simp add: nativeIndexOf_def)
qed

lemma occursAt_least_less:
  assumes "findByteIndex v T s = int b" "b \<le> h" "occursAt T N h"
    "\<forall>h'. b \<le> h' \<and> h' < h \<longrightarrow> \<not> occursAt T N h'"
  shows "h < length T"
proof (cases "N = []")
  case True
  from assms(1) have bl: "b < length T" using findByteIndex_nonneg_range [of v T s b] by simp
  with True have "occursAt T N b" by (simp add: occursAt_def)
  with assms(2,4) have "h = b" by (cases "b < h") auto
  with bl show ?thesis by simp
next
  case False
  from assms(3) have "length (take (length N) (drop h T)) = length N"
    by (simp add: occursAt_def)
  with False show ?thesis by (cases "h < length T") auto
qed

lemma offsetOf_mono: "j \<le> k \<Longrightarrow> offsetOf cs j \<le> offsetOf cs k"
proof -
  assume "j \<le> k"
  then have "take k cs = take j cs @ take (k - j) (drop j cs)"
    by (metis le_add_diff_inverse take_add)
  then show ?thesis by (simp add: offsetOf_def)
qed

text \<open>
  C7. \<open>indexOf\<close> with start character index \<open>s\<close> searches the code units from the offset
  of the \<open>s\<close>-th logical character (which is what \<open>findByteIndex\<close> returns) and gives the
  index \<open>r \<ge> s\<close> of the logical character that covers the first occurrence at or after
  that offset (which is what \<open>findCharIndex\<close> returns for the offset of the hit); it is -1
  when the start is out of range or nothing is found from there.  In \<open>a\<close>, U+1F642, \<open>b\<close> the
  index of \<open>b\<close> is 2, while the native code-unit index is 3; in U+1F642, \<open>a\<close>, \<open>a\<close> the
  search from character 2 skips the \<open>a\<close> at code unit 2, which is character 1.
\<close>

theorem indexOf_logical:
  "(s < 0 \<or> lengthOf v T \<le> s \<longrightarrow> indexOf v T N (Some s) = -1) \<and>
   (0 \<le> s \<and> s < lengthOf v T \<longrightarrow>
      findByteIndex v T s = int (offsetOf (stringToCharArray v T) (nat s))) \<and>
   (0 \<le> s \<and> s < lengthOf v T \<and>
    (\<forall>h\<ge>offsetOf (stringToCharArray v T) (nat s). \<not> occursAt T N h) \<longrightarrow>
      indexOf v T N (Some s) = -1) \<and>
   (0 \<le> s \<and> s < lengthOf v T \<and>
    offsetOf (stringToCharArray v T) (nat s) \<le> h \<and> occursAt T N h \<and>
    (\<forall>h'. offsetOf (stringToCharArray v T) (nat s) \<le> h' \<and> h' < h \<longrightarrow> \<not> occursAt T N h') \<longrightarrow>
      (\<exists>r. indexOf v T N (Some s) = int r \<and> findCharIndex v T (int h) = int r \<and>
           nat s \<le> r \<and> r < length (stringToCharArray v T) \<and>
           offsetOf (stringToCharArray v T) r \<le> h \<and>
           h < offsetOf (stringToCharArray v T) (Suc r))) \<and>
   indexOf v T N None = indexOf v T N (Some 0) \<and>
   indexOf UtfString [0x61, 0xD83D, 0xDE42, 0x62] [0x62] None = 2 \<and>
   nativeIndexOf [0x61, 0xD83D, 0xDE42, 0x62] [0x62] 0 = 3 \<and>
   indexOf UtfString [0xD83D, 0xDE42, 0x61, 0x61] [0x61] (Some 2) = 2"
proof -
  let ?cs = "stringToCharArray v T"
  let ?b = "offsetOf ?cs (nat s)"
  have out: "indexOf v T N (Some s) = -1" if "s < 0 \<or> lengthOf v T \<le> s"
  proof -
    from that have "findByteIndex v T s < 0"
      using findByteIndex_negative [of s v T] by (auto simp: findByteIndex_def)
    then show ?thesis by (simp add: indexOf_def)
  qed
  have fb: "findByteIndex v T s = int ?b" if "0 \<le> s \<and> s < lengthOf v T"
    using that findByteIndex_chars [of s v T] by (simp add: stringToCharArray_chars)
  have none: "indexOf v T N (Some s) = -1"
    if a: "0 \<le> s \<and> s < lengthOf v T \<and> (\<forall>h\<ge>?b. \<not> occursAt T N h)"
  proof -
    from a have f: "findByteIndex v T s = int ?b" by (simp add: fb)
    then have "?b \<le> length T" using findByteIndex_nonneg_range [OF f] by simp
    with a have "nativeIndexOf T N (int ?b) = -1" by (intro nativeIndexOf_none) simp_all
    with f show ?thesis by (simp add: indexOf_def)
  qed
  have hit: "\<exists>r. indexOf v T N (Some s) = int r \<and> findCharIndex v T (int h) = int r \<and>
           nat s \<le> r \<and> r < length ?cs \<and> offsetOf ?cs r \<le> h \<and> h < offsetOf ?cs (Suc r)"
    if a: "0 \<le> s \<and> s < lengthOf v T \<and> ?b \<le> h \<and> occursAt T N h \<and>
      (\<forall>h'. ?b \<le> h' \<and> h' < h \<longrightarrow> \<not> occursAt T N h')"
  proof -
    from a have f: "findByteIndex v T s = int ?b" by (simp add: fb)
    from a have n: "nativeIndexOf T N (int ?b) = int h" by (intro nativeIndexOf_least) simp_all
    from a have hl: "h < length T" by (intro occursAt_least_less [OF f, of h N]) simp_all
    define r where "r = nat (findCharIndex v T (int h))"
    from findCharIndex_covering [OF hl, of v]
    have c: "findCharIndex v T (int h) = int r" "r < length ?cs"
      "offsetOf ?cs r \<le> h" "h < offsetOf ?cs (Suc r)"
      by (auto simp: r_def lengthOf_chars stringToCharArray_chars)
    have "nat s \<le> r"
    proof (rule ccontr)
      assume "\<not> nat s \<le> r"
      then have "Suc r \<le> nat s" by simp
      from offsetOf_mono [OF this, of ?cs] a c(4) show False by simp
    qed
    moreover have "indexOf v T N (Some s) = int r"
      using f n c(1) by (simp add: indexOf_def)
    ultimately show ?thesis using c by blast
  qed
  have d: "indexOf v T N None = indexOf v T N (Some 0)" by (simp add: indexOf_def)
  have e: "indexOf UtfString [0x61, 0xD83D, 0xDE42, 0x62] [0x62] None = 2" by code_simp
  have g: "nativeIndexOf [0x61, 0xD83D, 0xDE42, 0x62] [0x62] 0 = 3" by code_simp
  have k: "indexOf UtfString [0xD83D, 0xDE42, 0x61, 0x61] [0x61] (Some 2) = 2" by code_simp
  from out fb none hit d e g k show ?thesis by blast
qed


theorem indexOf_logical_witness:
  "lengthOf UtfString [0xD83D, 0xDE42, 0x61, 0x61] \<le> 5 \<and>
   indexOf UtfString [0xD83D, 0xDE42, 0x61, 0x61] [0x61] (Some 5) = -1 \<and>
   (0::int) \<le> 2 \<and> 2 < lengthOf UtfString [0xD83D, 0xDE42, 0x61, 0x61] \<and>
   findByteIndex UtfString [0xD83D, 0xDE42, 0x61, 0x61] 2 = 3 \<and>
   indexOf UtfString [0xD83D, 0xDE42, 0x61, 0x61] [0x7A] (Some 2) = -1 \<and>
   occursAt [0xD83D, 0xDE42, 0x61, 0x61] [0x61] 2 \<and>
   occursAt [0xD83D, 0xDE42, 0x61, 0x61] [0x61] 3 \<and>
   indexOf UtfString [0xD83D, 0xDE42, 0x61, 0x61] [0x61] (Some 2) = 2 \<and>
   findCharIndex UtfString [0xD83D, 0xDE42, 0x61, 0x61] 3 = 2"
proof -
  let ?X = "[0xD83D, 0xDE42, 0x61, 0x61] :: jsstring"
  have l5: "lengthOf UtfString ?X \<le> 5" by code_simp
  have l2: "(0::int) \<le> 2 \<and> 2 < lengthOf UtfString ?X" by code_simp
  have off: "offsetOf (stringToCharArray UtfString ?X) (nat 2) = 3" by code_simp
  have o2: "occursAt ?X [0x61] 2" by (simp add: occursAt_def)
  have o3: "occursAt ?X [0x61] 3" by (simp add: occursAt_def numeral_3_eq_3)
  have noz: "\<forall>h\<ge>3. \<not> occursAt ?X [0x7A] h"
  proof (intro allI impI notI)
    fix h :: nat
    assume "3 \<le> h" and "occursAt ?X [0x7A] h"
    then have h: "3 \<le> h" "h \<le> 4" and t: "take 1 (drop h ?X) = [0x7A]"
      by (simp_all add: occursAt_def)
    from h consider "h = 3" | "h = 4" by arith
    then show False using t by cases simp_all
  qed
  have least: "\<forall>h'::nat. 3 \<le> h' \<and> h' < 3 \<longrightarrow> \<not> occursAt ?X [0x61] h'" by auto
  note out = indexOf_logical [of 5 UtfString ?X "[0x61]" 0, THEN conjunct1]
  note inr = indexOf_logical [of 2 UtfString ?X "[0x7A]" 3, THEN conjunct2]
  note hit = indexOf_logical [of 2 UtfString ?X "[0x61]" 3, THEN conjunct2, THEN conjunct2,
      THEN conjunct2, THEN conjunct1]
  from out l5 have a: "indexOf UtfString ?X [0x61] (Some 5) = -1" by simp
  from inr l2 off have b: "findByteIndex UtfString ?X 2 = 3" by simp
  from inr l2 off noz have c: "indexOf UtfString ?X [0x7A] (Some 2) = -1" by simp
  from hit l2 off o3 least obtain r where r: "indexOf UtfString ?X [0x61] (Some 2) = int r"
    "findCharIndex UtfString ?X (int 3) = int r" "nat 2 \<le> r"
    "r < length (stringToCharArray UtfString ?X)" by auto
  have "length (stringToCharArray UtfString ?X) = 3" by code_simp
  with r(3,4) have "r = 2" by simp
  with r a b c l5 l2 o2 o3 show ?thesis by simp
qed

subsection \<open>C8: unpaired surrogates\<close>

definition lone :: "jsstring \<Rightarrow> cu \<Rightarrow> jsstring \<Rightarrow> bool" where
  "lone A u B =
     ((isHigh u \<and> \<not> (B \<noteq> [] \<and> isLow (hd B))) \<or>
      (isLow u \<and> \<not> (A \<noteq> [] \<and> isHigh (last A))))"

lemma spanAt_lone_head:
  assumes "lone [] u B"
  shows "spanAt v (u # B) = 1"
proof -
  from spanAt_cases [of "u # B" v] consider "spanAt v (u # B) = 1"
    | l r where "B = l # r" "isHigh u" "isLow l"
    by auto
  then show ?thesis
  proof cases
    case 1
    then show ?thesis .
  next
    case 2
    with assms high_not_low [of u] show ?thesis by (auto simp: lone_def)
  qed
qed

lemma span_within_prefix:
  assumes "lone A u B" "A \<noteq> []"
  shows "spanAt v (A @ u # B) \<le> length A"
proof -
  from assms(2) have ne: "A @ u # B \<noteq> []" by simp
  from spanAt_cases [OF ne, of v] consider
      (one) "spanAt v (A @ u # B) = 1"
    | (two) h l r where "A @ u # B = h # l # r" "isHigh h" "isLow l" "spanAt v (A @ u # B) = 2"
    | (four) h1 l1 h2 l2 r where "A @ u # B = h1 # l1 # h2 # l2 # r"
        "isHigh h1" "isLow l1" "isHigh h2" "isLow l2" "spanAt v (A @ u # B) = 4"
    by blast
  then show ?thesis
  proof cases
    case one
    with assms(2) show ?thesis by (cases A) simp_all
  next
    case two
    show ?thesis
    proof (cases A)
      case Nil
      with assms(2) show ?thesis by simp
    next
      case (Cons a A1)
      show ?thesis
      proof (cases A1)
        case Nil
        with Cons two have "u = l" "last A = h" by simp_all
        with two assms high_not_low [of u] show ?thesis by (auto simp: lone_def)
      next
        case (Cons b A2)
        with \<open>A = a # A1\<close> two show ?thesis by simp
      qed
    qed
  next
    case four
    show ?thesis
    proof (cases A)
      case Nil
      with assms(2) show ?thesis by simp
    next
      case A: (Cons a A1)
      show ?thesis
      proof (cases A1)
        case Nil
        with A four have "u = l1" "last A = h1" by simp_all
        with four assms high_not_low [of u] show ?thesis by (auto simp: lone_def)
      next
        case A1: (Cons b A2)
        show ?thesis
        proof (cases A2)
          case Nil
          with A A1 four have "u = h2" "B = l2 # r" by simp_all
          with four assms high_not_low [of u] show ?thesis by (auto simp: lone_def)
        next
          case A2: (Cons c A3)
          show ?thesis
          proof (cases A3)
            case Nil
            with A A1 A2 four have "u = l2" "last A = h2" by simp_all
            with four assms high_not_low [of u] show ?thesis by (auto simp: lone_def)
          next
            case (Cons d A4)
            with A A1 A2 four show ?thesis by simp
          qed
        qed
      qed
    qed
  qed
qed

lemma lone_drop: "lone A u B \<Longrightarrow> lone (drop n A) u B"
  by (auto simp: lone_def)

lemma chars_lone: "lone A u B \<Longrightarrow> chars v (A @ u # B) = chars v A @ [u] # chars v B"
proof (induction "length A" arbitrary: A rule: less_induct)
  case less
  show ?case
  proof (cases "A = []")
    case True
    with less.prems show ?thesis by (simp add: chars.simps(2) spanAt_lone_head)
  next
    case False
    define n where "n = spanAt v (A @ u # B)"
    from span_within_prefix [OF less.prems False, of v] have nA: "n \<le> length A"
      by (simp add: n_def)
    from spanAt_bounds [of "A @ u # B" v] have n1: "1 \<le> n" by (simp add: n_def)
    from spanAt_append [OF False, of v "u # B"] nA have sA: "spanAt v A = n"
      by (simp add: n_def)
    have ne: "A @ u # B \<noteq> []" by simp
    have "chars v (A @ u # B) = take n A # chars v (drop n A @ u # B)"
      using chars_unfold [OF ne, of v] nA by (simp add: n_def [symmetric])
    also have "chars v (drop n A @ u # B) = chars v (drop n A) @ [u] # chars v B"
      using False n1 lone_drop [OF less.prems] by (intro less.hyps) simp_all
    also have "take n A # (chars v (drop n A) @ [u] # chars v B) = chars v A @ [u] # chars v B"
      using chars_unfold [OF False, of v] by (simp add: sA)
    finally show ?thesis .
  qed
qed

text \<open>
  C8. In a text \<open>A u B\<close> where \<open>u\<close> is an unpaired surrogate (a high surrogate not followed
  by a low one, or a low surrogate not preceded by a high one), \<open>u\<close> is a logical character
  of its own in both classes: the characters of the text are those of \<open>A\<close>, then \<open>u\<close>, then
  those of \<open>B\<close>; \<open>lengthOf\<close> counts \<open>u\<close> as one; and \<open>charAt\<close> at its character index returns
  exactly \<open>u\<close>.  Every operation of the model is a total function without an error value,
  as the source has no \<open>throw\<close>.
\<close>

theorem lone_surrogate_is_character:
  assumes "lone A u B"
  shows "stringToCharArray v (A @ u # B) =
           stringToCharArray v A @ [[u]] @ stringToCharArray v B \<and>
         lengthOf v (A @ u # B) = lengthOf v A + 1 + lengthOf v B \<and>
         findByteIndex v (A @ u # B) (lengthOf v A) = int (length A) \<and>
         charAt v (A @ u # B) (lengthOf v A) = [u]"
proof -
  have cs: "chars v (A @ u # B) = chars v A @ [u] # chars v B"
    using assms by (rule chars_lone)
  then have len: "lengthOf v (A @ u # B) = lengthOf v A + 1 + lengthOf v B"
    by (simp add: lengthOf_chars)
  have i: "0 \<le> lengthOf v A" "lengthOf v A < lengthOf v (A @ u # B)"
    using len by (simp_all add: lengthOf_chars)
  have "findByteIndex v (A @ u # B) (lengthOf v A) =
        int (offsetOf (chars v (A @ u # B)) (nat (lengthOf v A)))"
    using i by (rule findByteIndex_chars)
  also have "offsetOf (chars v (A @ u # B)) (nat (lengthOf v A)) = length (concat (chars v A))"
    by (simp add: cs lengthOf_chars offsetOf_def length_concat)
  finally have fb: "findByteIndex v (A @ u # B) (lengthOf v A) = int (length A)"
    by (simp add: concat_chars)
  have "charAt v (A @ u # B) (lengthOf v A) = chars v (A @ u # B) ! nat (lengthOf v A)"
    using i by (rule charAt_chars)
  also have "\<dots> = [u]" by (simp add: cs lengthOf_chars)
  finally show ?thesis using cs len fb by (simp add: stringToCharArray_chars)
qed

theorem lone_surrogate_is_character_witness:
  "lone [0xD83C, 0xDDE9] 0xD83C [0x78] \<and>
   stringToCharArray UtfVisualString ([0xD83C, 0xDDE9] @ 0xD83C # [0x78]) =
     [[0xD83C, 0xDDE9], [0xD83C], [0x78]] \<and>
   lengthOf UtfVisualString ([0xD83C, 0xDDE9] @ 0xD83C # [0x78]) = 3 \<and>
   charAt UtfVisualString ([0xD83C, 0xDDE9] @ 0xD83C # [0x78]) 1 = [0xD83C]"
proof -
  have h: "lone [0xD83C, 0xDDE9] 0xD83C [0x78]"
    by (simp add: lone_def isHigh_def isLow_def)
  have a: "stringToCharArray UtfVisualString [0xD83C, 0xDDE9] = [[0xD83C, 0xDDE9]]" by code_simp
  have b: "stringToCharArray UtfVisualString [0x78] = [[0x78]]" by code_simp
  have c: "lengthOf UtfVisualString [0xD83C, 0xDDE9] = 1" by code_simp
  have d: "lengthOf UtfVisualString [0x78] = 1" by code_simp
  from lone_surrogate_is_character [OF h, of UtfVisualString] h a b c d
  show ?thesis by simp
qed

subsection \<open>C9: \<open>charCodeAt\<close> past the end\<close>

text \<open>
  C9. For every text \<open>T\<close> and every index \<open>i\<close> that is at least the logical length of \<open>T\<close> in
  \<open>UtfString\<close> (where a surrogate pair counts one and a flag two), \<open>charCodeAt T i\<close> is \<open>NaN\<close>
  (a value, not the sentinel -1), and so is \<open>codePointAt T i\<close>, which calls \<open>charCodeAt\<close>;
  this holds for the \<open>charCodeAt\<close> of both classes, since \<open>UtfVisualString\<close> inherits it and it
  scans with the surrogate-pair scanner in either class.
\<close>

theorem charCodeAt_beyond:
  assumes "lengthOf UtfString T \<le> i"
  shows "charCodeAt v T i = NaN \<and> codePointAt v T i = NaN"
proof -
  from assms have "charCodeAt UtfString T i = NaN" by (rule charCodeAt_past_end)
  then have "charCodeAt v T i = NaN" by (cases v) (simp_all add: charCodeAt_visual)
  then show ?thesis by (simp add: codePointAt_def)
qed

theorem charCodeAt_beyond_witness:
  "lengthOf UtfString [0x61, 0xD83D, 0xDE42, 0x62] \<le> 3 \<and>
   charCodeAt UtfString [0x61, 0xD83D, 0xDE42, 0x62] 3 = NaN \<and>
   codePointAt UtfString [0x61, 0xD83D, 0xDE42, 0x62] 3 = NaN \<and>
   lengthOf UtfString [0xD83C, 0xDDE9, 0xD83C, 0xDDEA, 0x78] \<le> 3 \<and>
   charCodeAt UtfVisualString [0xD83C, 0xDDE9, 0xD83C, 0xDDEA, 0x78] 3 = NaN \<and>
   codePointAt UtfVisualString [0xD83C, 0xDDE9, 0xD83C, 0xDDEA, 0x78] 3 = NaN"
proof -
  have h: "lengthOf UtfString [0x61, 0xD83D, 0xDE42, 0x62] \<le> 3" by code_simp
  have k: "lengthOf UtfString [0xD83C, 0xDDE9, 0xD83C, 0xDDEA, 0x78] \<le> 3" by code_simp
  from charCodeAt_beyond [OF h, of UtfString] charCodeAt_beyond [OF k, of UtfVisualString] h k
  show ?thesis by simp
qed

text \<open>
  With the logical length of the class in use the property fails in \<open>UtfVisualString\<close>:
  there a flag is one logical character but two code points, and \<open>charCodeAt\<close> goes on
  counting code points.  The flag of Germany followed by \<open>x\<close> has logical length 2 in that
  class, and index 2 gives the code of \<open>x\<close>.
\<close>

theorem charCodeAt_beyond_counterexample:
  "lengthOf UtfVisualString [0xD83C, 0xDDE9, 0xD83C, 0xDDEA, 0x78] \<le> 2 \<and>
   charCodeAt UtfVisualString [0xD83C, 0xDDE9, 0xD83C, 0xDDEA, 0x78] 2 = Num 0x78 \<and>
   charCodeAt UtfVisualString [0xD83C, 0xDDE9, 0xD83C, 0xDDEA, 0x78] 2 \<noteq> NaN \<and>
   codePointAt UtfVisualString [0xD83C, 0xDDE9, 0xD83C, 0xDDEA, 0x78] 2 \<noteq> NaN"
  by code_simp

subsection \<open>C10: \<open>slice\<close> from a start before the beginning\<close>

lemma nativeSlice_end: "nativeSlice str (int (length str)) (int (length str)) = []"
  by (simp add: nativeSlice_def)

text \<open>
  C10. For every text \<open>T\<close> and every negative \<open>start\<close> with \<open>lengthOf T + start < 0\<close>,
  \<open>slice T start\<close> (no end given) is the empty text: the negative character index
  \<open>lengthOf T + start\<close> is taken as past the end (\<open>findByteIndex\<close> is negative there, and the
  byte index becomes the length of the text) and is not clamped to 0.  The native \<open>slice\<close>
  clamps a start before the beginning of the text to 0 and returns the whole text.
\<close>

theorem slice_negative_start:
  assumes "start < 0" "lengthOf v T + start < 0"
  shows "slice v T (Some (Num start)) None = [] \<and>
         findByteIndex v T (lengthOf v T + start) < 0 \<and>
         (int (length T) + start \<le> 0 \<longrightarrow> nativeSlice T start (int (length T)) = T)"
proof -
  have n: "nativeSlice T start (int (length T)) = T" if "int (length T) + start \<le> 0"
    using that assms(1) by (simp add: nativeSlice_def)
  have s: "findByteIndex v T (lengthOf v T + start) < 0"
    using assms(2) by (rule findByteIndex_negative)
  have e: "findByteIndex v T (int (length T)) < 0"
    using lengthOf_le_length [of v T] by (simp add: findByteIndex_def)
  have "slice v T (Some (Num start)) None = []"
    using assms s e by (simp add: slice_def isNumber_def isDefined_def nativeSlice_end)
  with s n show ?thesis by simp
qed

theorem slice_negative_start_witness:
  "(-5::int) < 0 \<and> lengthOf UtfString [0x61, 0xD83D, 0xDE42, 0x62] + (-5) < 0 \<and>
   slice UtfString [0x61, 0xD83D, 0xDE42, 0x62] (Some (Num (-5))) None = [] \<and>
   findByteIndex UtfString [0x61, 0xD83D, 0xDE42, 0x62]
     (lengthOf UtfString [0x61, 0xD83D, 0xDE42, 0x62] + (-5)) < 0 \<and>
   int (length [0x61, 0xD83D, 0xDE42, 0x62 :: cu]) + (-5) \<le> 0 \<and>
   nativeSlice [0x61, 0xD83D, 0xDE42, 0x62] (-5) (int (length [0x61, 0xD83D, 0xDE42, 0x62 :: cu]))
     = [0x61, 0xD83D, 0xDE42, 0x62]"
proof -
  have h: "lengthOf UtfString [0x61, 0xD83D, 0xDE42, 0x62] + (-5) < 0" by code_simp
  have l: "int (length [0x61, 0xD83D, 0xDE42, 0x62 :: cu]) + (-5) \<le> 0" by simp
  from slice_negative_start [OF _ h] h l show ?thesis by simp
qed

end
